theory Spec2Isabelle
  imports Main "HOL-Library.Word"
begin

unbundle bit_operations_syntax

section \<open>LyssaRDSGen: key codec, RC4, PID parsing, curve arithmetic, sign and verify\<close>

text \<open>
  A shallow embedding of \<^verbatim>\<open>lyssa_rds_gen.py\<close>. Python integers are \<open>int\<close>, Python
  \<open>bytes\<close> are lists of 8-bit words, Python strings are \<open>string\<close> (one \<open>char\<close> per
  character, code points below 256), and every exception is a value \<open>Inl e\<close> of a sum type.
\<close>

subsection \<open>Exceptions\<close>

datatype error =
    ValueError string
  | OverflowError string
  | ZeroDivisionError
  | RuntimeError string

type_synonym byte = "8 word"

definition bindE :: "error + 'a \<Rightarrow> ('a \<Rightarrow> error + 'b) \<Rightarrow> error + 'b" where
  "bindE m f = (case m of Inl e \<Rightarrow> Inl e | Inr v \<Rightarrow> f v)"

subsection \<open>Key codec\<close>

definition KCHARS :: string where
  "KCHARS = ''BCDFGHJKMPQRTVWXY2346789''"

text \<open>\<^verbatim>\<open>s.index(c)\<close> for a one-character \<open>c\<close>: the first position, or ValueError.\<close>

fun str_index :: "string \<Rightarrow> char \<Rightarrow> error + int" where
  "str_index [] c = Inl (ValueError ''substring not found'')"
| "str_index (x # xs) c =
     (if x = c then Inr 0
      else case str_index xs c of Inl e \<Rightarrow> Inl e | Inr i \<Rightarrow> Inr (i + 1))"

text \<open>The loop \<^verbatim>\<open>while n > 0: out = KCHARS[n % 24] + out; n //= 24\<close>.\<close>

function encode_loop :: "int \<Rightarrow> string \<Rightarrow> string" where
  "encode_loop n out =
     (if n > 0 then encode_loop (n div 24) (KCHARS ! nat (n mod 24) # out) else out)"
  by pat_completeness auto
termination
  by (relation "measure (\<lambda>(n, out). nat n)") auto

declare encode_loop.simps [simp del]

definition rjust :: "string \<Rightarrow> nat \<Rightarrow> char \<Rightarrow> string" where
  "rjust s w c = replicate (w - length s) c @ s"

text \<open>\<^verbatim>\<open>[out[i:i+5] for i in range(0, len(out), 5)]\<close>.\<close>

function segments :: "string \<Rightarrow> string list" where
  "segments out = (if out = [] then [] else take 5 out # segments (drop 5 out))"
  by pat_completeness auto
termination
  by (relation "measure length") auto

declare segments.simps [simp del]

fun str_join :: "string \<Rightarrow> string list \<Rightarrow> string" where
  "str_join sep [] = []"
| "str_join sep [x] = x"
| "str_join sep (x # y # ys) = x @ sep @ str_join sep (y # ys)"

definition encode_pkey :: "int \<Rightarrow> error + string" where
  "encode_pkey n =
     (if n < 0 then Inl (ValueError ''n must be non-negative'')
      else if n = 0 then Inr ''''
      else
        let out = encode_loop n '''';
            out = rjust out 35 (KCHARS ! 0);
            segs = segments out
        in Inr (str_join ''-'' segs))"

text \<open>
  The loop of \<^verbatim>\<open>decode_pkey\<close>. \<^verbatim>\<open>KCHARS.index(char)\<close> raises on a character that is
  not in the alphabet, so the source's test \<^verbatim>\<open>value == -1\<close> is kept but never taken.
\<close>

fun decode_loop :: "string \<Rightarrow> int \<Rightarrow> error + int" where
  "decode_loop [] out = Inr out"
| "decode_loop (char # rest) out =
     (case str_index KCHARS char of
        Inl e \<Rightarrow> Inl e
      | Inr v \<Rightarrow>
          if v = -1 then Inl (ValueError (''Invalid character: '' @ [char]))
          else decode_loop rest (out * 24 + v))"

definition decode_pkey :: "string \<Rightarrow> error + int" where
  "decode_pkey key =
     (let key_string = filter (\<lambda>c. c \<noteq> CHR ''-'') key
      in if length key_string mod 5 \<noteq> 0 then Inl (ValueError ''Bad key length'')
         else decode_loop key_string 0)"

text \<open>
  The reading of a dash-free key as base-24 digits, most significant first, written
  independently of the loop: the digit of a character is its position in the alphabet.
\<close>

definition kdigit :: "char \<Rightarrow> int" where
  "kdigit c = int (length (takeWhile (\<lambda>x. x \<noteq> c) KCHARS))"

definition base24_big_endian :: "string \<Rightarrow> int" where
  "base24_big_endian s = (\<Sum>i<length s. kdigit (s ! i) * 24 ^ (length s - Suc i))"

subsection \<open>LKP version code\<close>

text \<open>Lines 380 to 382 of \<^verbatim>\<open>generate_lkp\<close>.\<close>

definition lkp_version :: "int \<Rightarrow> int \<Rightarrow> int" where
  "lkp_version major_ver minor_ver =
     (if (major_ver = 5 \<and> minor_ver > 0) \<or> major_ver > 5
      then push_bit 3 major_ver OR minor_ver
      else 1)"

definition lkp_info :: "int \<Rightarrow> int \<Rightarrow> int \<Rightarrow> int \<Rightarrow> int" where
  "lkp_info count chid major_ver minor_ver =
     push_bit 46 chid OR push_bit 32 count OR push_bit 18 2 OR push_bit 10 144
       OR push_bit 3 (lkp_version major_ver minor_ver)"


subsection \<open>Integers and bytes\<close>

text \<open>The \<open>len\<close> low-order bytes of \<open>n\<close>, least significant first.\<close>

fun le_bytes :: "nat \<Rightarrow> int \<Rightarrow> byte list" where
  "le_bytes 0 n = []"
| "le_bytes (Suc len) n = word_of_int n # le_bytes len (n div 256)"

text \<open>
  \<^verbatim>\<open>n.to_bytes(length, byteorder='little')\<close>: OverflowError on a negative \<open>n\<close> and on
  an \<open>n\<close> that does not fit.
\<close>

definition bigint_to_bytes_le :: "int \<Rightarrow> nat \<Rightarrow> error + byte list" where
  "bigint_to_bytes_le n len =
     (if n < 0 then Inl (OverflowError ''cannot convert negative int to unsigned'')
      else if 256 ^ len \<le> n then Inl (OverflowError ''int too big to convert'')
      else Inr (le_bytes len n))"

fun bytes_to_bigint_le :: "byte list \<Rightarrow> int" where
  "bytes_to_bigint_le [] = 0"
| "bytes_to_bigint_le (b # data) = uint b + 256 * bytes_to_bigint_le data"

subsection \<open>RC4\<close>

text \<open>\<^verbatim>\<open>s[i], s[j] = s[j], s[i]\<close>.\<close>

definition swap :: "nat list \<Rightarrow> nat \<Rightarrow> nat \<Rightarrow> nat list" where
  "swap s i j = s[i := s ! j, j := s ! i]"

text \<open>One round of the key scheduling loop, on the pair \<open>(j, s)\<close>.\<close>

definition ksa_step :: "byte list \<Rightarrow> nat \<Rightarrow> nat \<times> nat list \<Rightarrow> nat \<times> nat list" where
  "ksa_step key i js =
     (case js of (j, s) \<Rightarrow>
        let j = (j + s ! i + unat (key ! (i mod length key))) mod 256
        in (j, swap s i j))"

definition ksa :: "byte list \<Rightarrow> nat list" where
  "ksa key = snd (fold (ksa_step key) [0..<256] (0, [0..<256]))"

text \<open>
  One round of the generation loop: the new state \<open>(i, j, s)\<close> and the key stream
  value \<open>k\<close>.
\<close>

definition prga_step :: "nat \<Rightarrow> nat \<Rightarrow> nat list \<Rightarrow> (nat \<times> nat \<times> nat list) \<times> nat" where
  "prga_step i j s =
     (let i = (i + 1) mod 256;
          j = (j + s ! i) mod 256;
          s = swap s i j;
          k = s ! ((s ! i + s ! j) mod 256)
      in ((i, j, s), k))"

fun prga :: "nat \<Rightarrow> nat \<Rightarrow> nat list \<Rightarrow> byte list \<Rightarrow> byte list" where
  "prga i j s [] = []"
| "prga i j s (byte # data) =
     (case prga_step i j s of
        ((i, j, s), k) \<Rightarrow> (byte XOR word_of_nat k) # prga i j s data)"

text \<open>
  With an empty key the first \<^verbatim>\<open>i % len(key)\<close> of the key scheduling divides by zero.
\<close>

definition rc4 :: "byte list \<Rightarrow> byte list \<Rightarrow> error + byte list" where
  "rc4 key data =
     (if key = [] then Inl ZeroDivisionError
      else Inr (prga 0 0 (ksa key) data))"

text \<open>The invariant of the state array: a list of 256 values below 256.\<close>

definition rc4_state :: "nat list \<Rightarrow> bool" where
  "rc4_state s \<longleftrightarrow> length s = 256 \<and> list_all (\<lambda>x. x < 256) s"

subsection \<open>SPK ID of a PID\<close>

text \<open>
  Python's \<^verbatim>\<open>int(s)\<close> on a string, base 10: white space is stripped at both ends, one
  sign is allowed, and the rest is decimal digits, with single underscores allowed
  between digits.
\<close>

definition is_space :: "char \<Rightarrow> bool" where
  "is_space c = ((of_char c :: nat) \<in> {9, 10, 11, 12, 13, 32, 133, 160})"

definition is_digit :: "char \<Rightarrow> bool" where
  "is_digit c = (48 \<le> (of_char c :: nat) \<and> (of_char c :: nat) \<le> 57)"

definition digit_value :: "char \<Rightarrow> int" where
  "digit_value c = int (of_char c - 48)"

fun int_digits :: "string \<Rightarrow> int \<Rightarrow> int option" where
  "int_digits [] acc = Some acc"
| "int_digits (c # cs) acc =
     (if is_digit c then int_digits cs (acc * 10 + digit_value c)
      else if c = CHR ''_'' \<and> cs \<noteq> [] \<and> is_digit (hd cs) then int_digits cs acc
      else None)"

definition py_int :: "string \<Rightarrow> error + int" where
  "py_int str =
     (let s = rev (dropWhile is_space (rev (dropWhile is_space str)));
          (sign, s) = (if s \<noteq> [] \<and> hd s = CHR ''+'' then (1, tl s)
                       else if s \<noteq> [] \<and> hd s = CHR ''-'' then (- 1, tl s)
                       else (1, s))
      in if s \<noteq> [] \<and> is_digit (hd s)
         then (case int_digits s 0 of
                 Some v \<Rightarrow> Inr (sign * v)
               | None \<Rightarrow> Inl (ValueError ''invalid literal for int() with base 10''))
         else Inl (ValueError ''invalid literal for int() with base 10''))"

definition get_spkid :: "string \<Rightarrow> error + int" where
  "get_spkid pid =
     (if length pid < 23 then Inl (ValueError ''Invalid PID length'')
      else
        let spkid_part1 = take 6 (drop 10 pid);
            spkid_part2 = take 5 (drop 18 pid);
            combined = spkid_part1 @ spkid_part2;
            spkid_str = takeWhile (\<lambda>c. c \<noteq> CHR ''-'') combined
        in py_int spkid_str)"

text \<open>The payload of \<^verbatim>\<open>generate_spk\<close>, lines 368 to 372.\<close>

definition spk_payload :: "string \<Rightarrow> error + byte list" where
  "spk_payload pid =
     bindE (get_spkid pid) (\<lambda>spkid_num.
     bindE (bigint_to_bytes_le spkid_num 7) (\<lambda>spkdata.
       if length spkdata \<noteq> 7 then Inl (ValueError ''SPKID did not convert to 7 bytes'')
       else Inr spkdata))"


subsection \<open>Curves and points\<close>

record curve =
  curve_a :: int
  curve_b :: int
  curve_p :: int
  curve_n :: int
  curve_Gx :: int
  curve_Gy :: int
  curve_Kx :: int
  curve_Ky :: int
  curve_priv :: int

definition SPKCurve :: curve where
  "SPKCurve = \<lparr>
     curve_a = 1,
     curve_b = 0,
     curve_p = 21782971228112002125810473336838725345308036616026120243639513697227789232461459408261967852943809534324870610618161,
     curve_n = 629063109922370885449,
     curve_Gx = 10692194187797070010417373067833672857716423048889432566885309624149667762706899929433420143814127803064297378514651,
     curve_Gy = 14587399915883137990539191966406864676102477026583239850923355829082059124877792299572208431243410905713755917185109,
     curve_Kx = 3917395608307488535457389605368226854270150445881753750395461980792533894109091921400661704941484971683063487980768,
     curve_Ky = 8858262671783403684463979458475735219807686373661776500155868309933327116988404547349319879900761946444470688332645,
     curve_priv = 153862071918555979944 \<rparr>"

definition LKPCurve :: curve where
  "LKPCurve = \<lparr>
     curve_a = 1,
     curve_b = 0,
     curve_p = 28688293616765795404141427476803815352899912533728694325464374376776313457785622361119232589082131818578591461837297,
     curve_n = 675048016158598417213,
     curve_Gx = 18999816458520350299014628291870504329073391058325678653840191278128672378485029664052827205905352913351648904170809,
     curve_Gy = 7233699725243644729688547165924232430035643592445942846958231777803539836627943189850381859836033366776176689124317,
     curve_Kx = 7147768390112741602848314103078506234267895391544114241891627778383312460777957307647946308927283757886117119137500,
     curve_Ky = 20525272195909974311677173484301099561025532568381820845650748498800315498040161314197178524020516408371544778243934,
     curve_priv = 100266970209474387075 \<rparr>"

function extended_gcd :: "int \<Rightarrow> int \<Rightarrow> int \<times> int \<times> int" where
  "extended_gcd a b =
     (if a = 0 then (b, 0, 1)
      else case extended_gcd (b mod a) a of
        (g, x1, y1) \<Rightarrow>
          let x = y1 - (b div a) * x1;
              y = x1
          in (g, x, y))"
  by pat_completeness auto
termination
  by (relation "measure (\<lambda>(a, b). nat \<bar>a\<bar>)") (auto simp: abs_mod_less)

declare extended_gcd.simps [simp del]

text \<open>\<^verbatim>\<open>a % m\<close> divides by zero when \<open>m\<close> is 0.\<close>

definition mod_inverse :: "int \<Rightarrow> int \<Rightarrow> error + int" where
  "mod_inverse a m =
     (if m = 0 then Inl ZeroDivisionError
      else case extended_gcd (a mod m) m of
        (g, x, _) \<Rightarrow>
          if g \<noteq> 1 then Inl (ValueError ''Modular inverse does not exist'')
          else Inr ((x mod m + m) mod m))"

record point =
  pt_x :: int
  pt_y :: int
  pt_curve :: curve
  pt_infinity :: bool

definition EllipticCurvePoint :: "int \<Rightarrow> int \<Rightarrow> curve \<Rightarrow> point" where
  "EllipticCurvePoint x y c = \<lparr> pt_x = x, pt_y = y, pt_curve = c, pt_infinity = False \<rparr>"

definition infinity_point :: "curve \<Rightarrow> point" where
  "infinity_point c = (EllipticCurvePoint 0 0 c) \<lparr> pt_infinity := True \<rparr>"

text \<open>\<^verbatim>\<open>__add__\<close>. The slope \<open>s\<close> is computed in one of two branches, then shared.\<close>

definition point_add :: "point \<Rightarrow> point \<Rightarrow> error + point" where
  "point_add self other =
     (if pt_infinity self then
        Inr ((EllipticCurvePoint (pt_x other) (pt_y other) (pt_curve self))
               \<lparr> pt_infinity := pt_infinity other \<rparr>)
      else if pt_infinity other then
        Inr ((EllipticCurvePoint (pt_x self) (pt_y self) (pt_curve self))
               \<lparr> pt_infinity := pt_infinity self \<rparr>)
      else
        let p = curve_p (pt_curve self);
            finish = (\<lambda>s.
              let x3 = (s * s - pt_x self - pt_x other) mod p;
                  y3 = (s * (pt_x self - x3) - pt_y self) mod p
              in Inr (EllipticCurvePoint x3 y3 (pt_curve self)))
        in
          if pt_x self = pt_x other then
            if pt_y self = pt_y other then
              bindE (mod_inverse (2 * pt_y self) p) (\<lambda>minv.
                finish ((3 * pt_x self * pt_x self + curve_a (pt_curve self)) * minv mod p))
            else Inr (infinity_point (pt_curve self))
          else
            bindE (mod_inverse (pt_x other - pt_x self) p) (\<lambda>minv.
              finish ((pt_y other - pt_y self) * minv mod p)))"

text \<open>
  The loop of \<^verbatim>\<open>__mul__\<close>. It is entered with a positive scalar, which stays
  non-negative, so \<^verbatim>\<open>while scalar\<close> is \<open>0 < scalar\<close>.
\<close>

function mul_loop :: "int \<Rightarrow> point \<Rightarrow> point \<Rightarrow> error + point" where
  "mul_loop scalar result addend =
     (if 0 < scalar then
        case (if scalar AND 1 \<noteq> 0 then point_add result addend else Inr result) of
          Inl e \<Rightarrow> Inl e
        | Inr result \<Rightarrow>
            (case point_add addend addend of
               Inl e \<Rightarrow> Inl e
             | Inr addend \<Rightarrow> mul_loop (drop_bit 1 scalar) result addend)
      else Inr result)"
  by pat_completeness auto
termination
  by (relation "measure (\<lambda>(scalar, result, addend). nat scalar)")
     (auto simp: drop_bit_eq_div)

declare mul_loop.simps [simp del]

definition point_mul :: "point \<Rightarrow> int \<Rightarrow> error + point" where
  "point_mul self scalar =
     (if scalar = 0 then Inr (infinity_point (pt_curve self))
      else if scalar < 0 then Inl (ValueError ''Scalar must be non-negative'')
      else mul_loop scalar (infinity_point (pt_curve self)) self)"

subsection \<open>Verification\<close>

text \<open>
  The two digests come from \<^verbatim>\<open>hashlib\<close>; they are parameters \<open>md5\<close> and \<open>sha1\<close> of the
  model, functions from bytes to bytes.
\<close>

text \<open>\<^verbatim>\<open>pid.encode('utf-16-le')\<close> for code points below 256.\<close>

definition utf16le :: "string \<Rightarrow> byte list" where
  "utf16le pid = concat (map (\<lambda>c. [of_char c, 0]) pid)"

definition rc4_key :: "(byte list \<Rightarrow> byte list) \<Rightarrow> string \<Rightarrow> byte list" where
  "rc4_key md5 pid =
     (let pid_utf16le = utf16le pid;
          md5_digest = md5 pid_utf16le
      in take 5 md5_digest @ replicate 11 0)"

text \<open>
  The 35-bit hash of the payload and a point, lines 274 to 283 of \<^verbatim>\<open>validate_tskey\<close>
  and again lines 324 to 332 of \<^verbatim>\<open>generate_tskey\<close>.
\<close>

definition signature_hash ::
  "(byte list \<Rightarrow> byte list) \<Rightarrow> byte list \<Rightarrow> point \<Rightarrow> error + int" where
  "signature_hash sha1 keydata_inner R =
     bindE (bigint_to_bytes_le (pt_x R) 48) (\<lambda>Rx_bytes.
     bindE (bigint_to_bytes_le (pt_y R) 48) (\<lambda>Ry_bytes.
       let sha1_input = keydata_inner @ Rx_bytes @ Ry_bytes;
           md = sha1 sha1_input;
           part1 = bytes_to_bigint_le (take 4 md);
           part2_intermediate = bytes_to_bigint_le (take 4 (drop 4 md));
           part2 = drop_bit 29 part2_intermediate
       in Inr (push_bit 32 part2 OR part1)))"

text \<open>Lines 238 to 247: decode the key and decrypt it with the key of the PID.\<close>

definition decrypt_kdata ::
  "(byte list \<Rightarrow> byte list) \<Rightarrow> string \<Rightarrow> string \<Rightarrow> error + byte list" where
  "decrypt_kdata md5 pid tskey =
     bindE (decode_pkey tskey) (\<lambda>keydata_int.
     bindE (bigint_to_bytes_le keydata_int 21) (\<lambda>keydata_bytes.
       let rk = rc4_key md5 pid
       in rc4 rk keydata_bytes))"

text \<open>
  Lines 249 to 289: the signature check on the decrypted bytes. \<open>Inr False\<close> is one of
  the three early \<^verbatim>\<open>return False\<close>; \<open>Inr True\<close> means that line 291 is reached.
\<close>

definition check_signature ::
  "(byte list \<Rightarrow> byte list) \<Rightarrow> curve \<Rightarrow> byte list \<Rightarrow> error + bool" where
  "check_signature sha1 curve dc_kdata =
     (if length dc_kdata < 21 then Inr False
      else
        let keydata_inner = take 7 dc_kdata;
            sigdata_bytes = drop 7 dc_kdata;
            sigdata = bytes_to_bigint_le sigdata_bytes;
            h = sigdata AND 0x7FFFFFFFFF;
            s = drop_bit 35 sigdata AND 0x1FFFFFFFFFFFFFFFFF;
            G = EllipticCurvePoint (curve_Gx curve) (curve_Gy curve) curve;
            K = EllipticCurvePoint (curve_Kx curve) (curve_Ky curve) curve
        in
          bindE (point_mul K h) (\<lambda>hK.
          bindE (point_mul G s) (\<lambda>sG.
          bindE (point_add hK sG) (\<lambda>R.
            if pt_infinity R then Inr False
            else
              bindE (signature_hash sha1 keydata_inner R) (\<lambda>ht.
                if h \<noteq> ht then Inr False else Inr True)))))"

text \<open>The body of the \<^verbatim>\<open>try\<close> block of \<^verbatim>\<open>validate_tskey\<close>.\<close>

definition validate_body ::
  "(byte list \<Rightarrow> byte list) \<Rightarrow> (byte list \<Rightarrow> byte list) \<Rightarrow>
   string \<Rightarrow> string \<Rightarrow> curve \<Rightarrow> bool \<Rightarrow> error + bool" where
  "validate_body md5 sha1 pid tskey curve is_spk =
     bindE (decrypt_kdata md5 pid tskey) (\<lambda>dc_kdata.
     bindE (check_signature sha1 curve dc_kdata) (\<lambda>signed.
       if \<not> signed then Inr False
       else if is_spk then
         let keydata_inner = take 7 dc_kdata;
             spkid_from_key = bytes_to_bigint_le keydata_inner AND 0x1FFFFFFFFFF
         in bindE (get_spkid pid) (\<lambda>spkid_from_pid.
              Inr (spkid_from_key = spkid_from_pid))
       else Inr True))"

text \<open>
  \<^verbatim>\<open>validate_tskey\<close>: \<^verbatim>\<open>except Exception\<close> turns every exception of the body into
  \<^verbatim>\<open>return False\<close>. The result keeps the type of a call that could raise.
\<close>

definition validate_tskey ::
  "(byte list \<Rightarrow> byte list) \<Rightarrow> (byte list \<Rightarrow> byte list) \<Rightarrow>
   string \<Rightarrow> string \<Rightarrow> curve \<Rightarrow> bool \<Rightarrow> error + bool" where
  "validate_tskey md5 sha1 pid tskey curve is_spk =
     (case validate_body md5 sha1 pid tskey curve is_spk of
        Inl e \<Rightarrow> Inr False
      | Inr verdict \<Rightarrow> Inr verdict)"


subsection \<open>Generation\<close>

text \<open>
  Lines 321 to 343 of the loop body of \<^verbatim>\<open>generate_tskey\<close>, for the nonce \<open>c_nonce\<close>:
  \<open>Inr None\<close> is the \<^verbatim>\<open>continue\<close> of the mask test, \<open>Inr (Some (s_masked, h_masked))\<close>
  reaches the packing step. \<^verbatim>\<open>% curve.n\<close> divides by zero when the order is 0.
\<close>

definition sign_attempt ::
  "(byte list \<Rightarrow> byte list) \<Rightarrow> byte list \<Rightarrow> curve \<Rightarrow> int \<Rightarrow> error + (int \<times> int) option" where
  "sign_attempt sha1 keydata_inner curve c_nonce =
     (let G = EllipticCurvePoint (curve_Gx curve) (curve_Gy curve) curve
      in bindE (point_mul G c_nonce) (\<lambda>R.
         bindE (signature_hash sha1 keydata_inner R) (\<lambda>h.
           if curve_n curve = 0 then Inl ZeroDivisionError
           else
             let s = (c_nonce - curve_priv curve * h) mod curve_n curve;
                 s_masked = s AND 0x1FFFFFFFFFFFFFFFFF;
                 h_masked = h AND 0x7FFFFFFFFF
             in if s_masked \<noteq> s \<or> s_masked \<ge> 0x1FFFFFFFFFFFFFFFFF then Inr None
                else Inr (Some (s_masked, h_masked)))))"

text \<open>Lines 346 and 347: the packed signature.\<close>

definition pack_signature :: "int \<Rightarrow> int \<Rightarrow> error + byte list" where
  "pack_signature s_masked h_masked =
     (let sigdata = push_bit 35 s_masked OR h_masked
      in bigint_to_bytes_le sigdata 14)"

text \<open>The whole loop body: \<open>Inr None\<close> goes to the next attempt, \<open>Inr (Some pkstr)\<close> returns.\<close>

definition tskey_attempt ::
  "(byte list \<Rightarrow> byte list) \<Rightarrow> (byte list \<Rightarrow> byte list) \<Rightarrow>
   string \<Rightarrow> byte list \<Rightarrow> curve \<Rightarrow> byte list \<Rightarrow> int \<Rightarrow> error + string option" where
  "tskey_attempt md5 sha1 pid keydata_inner curve rk c_nonce =
     bindE (sign_attempt sha1 keydata_inner curve c_nonce) (\<lambda>accepted.
       case accepted of
         None \<Rightarrow> Inr None
       | Some (s_masked, h_masked) \<Rightarrow>
           bindE (pack_signature s_masked h_masked) (\<lambda>sigdata_bytes.
             let pkdata = keydata_inner @ sigdata_bytes
             in if length pkdata \<noteq> 21 then Inr None
                else
                  bindE (rc4 rk pkdata) (\<lambda>pke.
                    let pk = bytes_to_bigint_le (take 20 pke)
                    in bindE (encode_pkey pk) (\<lambda>pkstr.
                         let is_spk = (curve_n curve = curve_n SPKCurve)
                         in bindE (validate_tskey md5 sha1 pid pkstr curve is_spk) (\<lambda>valid.
                              if valid then Inr (Some pkstr) else Inr None)))))"

text \<open>
  The loop over \<^verbatim>\<open>range(max_attempts)\<close>. \<open>rand attempt\<close> stands for the value drawn
  by \<^verbatim>\<open>secrets.randbelow\<close> in that round; it is reduced into the range
  \<open>0 \<le> \<dots> < n - 1\<close> that \<^verbatim>\<open>randbelow(curve.n - 1)\<close> draws from, and \<^verbatim>\<open>randbelow\<close> raises
  ValueError when that range is empty.
\<close>

function tskey_loop ::
  "(byte list \<Rightarrow> byte list) \<Rightarrow> (byte list \<Rightarrow> byte list) \<Rightarrow> (nat \<Rightarrow> int) \<Rightarrow>
   string \<Rightarrow> byte list \<Rightarrow> curve \<Rightarrow> byte list \<Rightarrow> nat \<Rightarrow> nat \<Rightarrow> error + string" where
  "tskey_loop md5 sha1 rand pid keydata_inner curve rk max_attempts attempt =
     (if attempt < max_attempts then
        if curve_n curve - 1 \<le> 0 then Inl (ValueError ''Upper bound must be positive.'')
        else
          case tskey_attempt md5 sha1 pid keydata_inner curve rk
                 (rand attempt mod (curve_n curve - 1) + 1) of
            Inl e \<Rightarrow> Inl e
          | Inr (Some pkstr) \<Rightarrow> Inr pkstr
          | Inr None \<Rightarrow>
              tskey_loop md5 sha1 rand pid keydata_inner curve rk max_attempts (Suc attempt)
      else Inl (RuntimeError ''Failed to generate valid key''))"
  by pat_completeness auto
termination
  by (relation "measure (\<lambda>(md5, sha1, rand, pid, keydata_inner, curve, rk, max_attempts, attempt).
        max_attempts - attempt)") auto

declare tskey_loop.simps [simp del]

definition generate_tskey ::
  "(byte list \<Rightarrow> byte list) \<Rightarrow> (byte list \<Rightarrow> byte list) \<Rightarrow> (nat \<Rightarrow> int) \<Rightarrow>
   string \<Rightarrow> byte list \<Rightarrow> curve \<Rightarrow> nat \<Rightarrow> error + string" where
  "generate_tskey md5 sha1 rand pid keydata_inner curve max_attempts =
     (let rk = rc4_key md5 pid
      in tskey_loop md5 sha1 rand pid keydata_inner curve rk max_attempts 0)"

definition generate_spk ::
  "(byte list \<Rightarrow> byte list) \<Rightarrow> (byte list \<Rightarrow> byte list) \<Rightarrow> (nat \<Rightarrow> int) \<Rightarrow>
   string \<Rightarrow> error + string" where
  "generate_spk md5 sha1 rand pid =
     bindE (spk_payload pid) (\<lambda>spkdata.
       generate_tskey md5 sha1 rand pid spkdata SPKCurve 1000)"

definition generate_lkp ::
  "(byte list \<Rightarrow> byte list) \<Rightarrow> (byte list \<Rightarrow> byte list) \<Rightarrow> (nat \<Rightarrow> int) \<Rightarrow>
   string \<Rightarrow> int \<Rightarrow> int \<Rightarrow> int \<Rightarrow> int \<Rightarrow> error + string" where
  "generate_lkp md5 sha1 rand pid count chid major_ver minor_ver =
     (let lkpinfo = lkp_info count chid major_ver minor_ver
      in bindE (bigint_to_bytes_le lkpinfo 7) (\<lambda>lkpdata.
           if length lkpdata \<noteq> 7 then Inl (ValueError ''LKP Info did not convert to 7 bytes'')
           else generate_tskey md5 sha1 rand pid lkpdata LKPCurve 1000))"


section \<open>Properties\<close>

subsection \<open>The alphabet and the codec loops\<close>

lemma str_index_nth:
  "distinct xs \<Longrightarrow> i < length xs \<Longrightarrow> str_index xs (xs ! i) = Inr (int i)"
proof (induction xs arbitrary: i)
  case Nil then show ?case by simp
next
  case (Cons x xs)
  show ?case
  proof (cases i)
    case 0 then show ?thesis by simp
  next
    case (Suc j)
    with Cons.prems have "j < length xs" "distinct xs" "xs ! j \<noteq> x" by auto
    with Cons.IH [of j] Suc show ?thesis by simp
  qed
qed

lemma str_index_notin: "c \<notin> set xs \<Longrightarrow> str_index xs c = Inl (ValueError ''substring not found'')"
  by (induction xs) auto

lemma str_index_in: "c \<in> set xs \<Longrightarrow> str_index xs c = Inr (int (length (takeWhile (\<lambda>x. x \<noteq> c) xs)))"
  by (induction xs) auto

lemma KCHARS_distinct: "distinct KCHARS" by (simp add: KCHARS_def)
lemma KCHARS_length: "length KCHARS = 24" by (simp add: KCHARS_def)
lemma KCHARS_0: "KCHARS ! 0 = CHR ''B''" by (simp add: KCHARS_def)
lemma dash_notin_KCHARS: "CHR ''-'' \<notin> set KCHARS" by (simp add: KCHARS_def)
lemma B_in_KCHARS: "CHR ''B'' \<in> set KCHARS" by (simp add: KCHARS_def)

lemma KCHARS_nth_mod: "KCHARS ! nat (n mod 24) \<in> set KCHARS"
  by (rule nth_mem) (simp add: KCHARS_length nat_less_iff)

lemma str_index_KCHARS_mod:
  "str_index KCHARS (KCHARS ! nat (n mod 24)) = Inr (n mod 24)"
proof -
  have "nat (n mod 24) < length KCHARS" by (simp add: KCHARS_length nat_less_iff)
  from str_index_nth [OF KCHARS_distinct this] show ?thesis by simp
qed

lemma str_index_B: "str_index KCHARS (CHR ''B'') = Inr 0"
  by (simp add: KCHARS_def)

lemma kdigit_str_index: "c \<in> set KCHARS \<Longrightarrow> str_index KCHARS c = Inr (kdigit c)"
  by (simp add: str_index_in kdigit_def)

lemma takeWhile_neq_less: "c \<in> set xs \<Longrightarrow> length (takeWhile (\<lambda>x. x \<noteq> c) xs) < length xs"
  by (induction xs) auto

lemma kdigit_range: "c \<in> set KCHARS \<Longrightarrow> 0 \<le> kdigit c \<and> kdigit c < 24"
proof -
  assume "c \<in> set KCHARS"
  then have "length (takeWhile (\<lambda>x. x \<noteq> c) KCHARS) < length KCHARS"
    by (rule takeWhile_neq_less)
  then show ?thesis by (simp add: kdigit_def KCHARS_length)
qed

lemma kdigit_zero_iff: "c \<in> set KCHARS \<Longrightarrow> kdigit c = 0 \<longleftrightarrow> c = CHR ''B''"
  by (auto simp: kdigit_def KCHARS_def takeWhile_eq_Nil_iff split: if_splits)


lemma encode_loop_set: "set (encode_loop n out) \<subseteq> set KCHARS \<union> set out"
proof (induction n out rule: encode_loop.induct)
  case (1 n out)
  show ?case
  proof (cases "n > 0")
    case True
    with 1 KCHARS_nth_mod [of n] show ?thesis by (subst encode_loop.simps) auto
  next
    case False then show ?thesis by (subst encode_loop.simps) simp
  qed
qed

lemma encode_loop_length:
  "n < 24 ^ k \<Longrightarrow> length (encode_loop n out) \<le> length out + k"
proof (induction k arbitrary: n out)
  case 0
  then show ?case by (subst encode_loop.simps) simp
next
  case (Suc k)
  show ?case
  proof (cases "n > 0")
    case True
    from Suc.prems have "n div 24 < 24 ^ k" by (simp add: div_less_iff_less_mult mult.commute)
    from Suc.IH [OF this, of "KCHARS ! nat (n mod 24) # out"] True show ?thesis
      by (subst encode_loop.simps) simp
  next
    case False then show ?thesis by (subst encode_loop.simps) simp
  qed
qed

lemma decode_encode_loop:
  "0 \<le> n \<Longrightarrow> decode_loop (encode_loop n out) 0 = decode_loop out n"
proof (induction n out rule: encode_loop.induct)
  case (1 n out)
  show ?case
  proof (cases "n > 0")
    case True
    then have "decode_loop (encode_loop n out) 0 = decode_loop (KCHARS ! nat (n mod 24) # out) (n div 24)"
      using 1 by (subst encode_loop.simps) simp
    also have "\<dots> = decode_loop out n"
    proof -
      have "n mod 24 \<noteq> - 1" using pos_mod_sign [of 24 n] by simp
      then show ?thesis by (simp add: str_index_KCHARS_mod)
    qed
    finally show ?thesis .
  next
    case False with 1 show ?thesis by (subst encode_loop.simps) simp
  qed
qed

lemma decode_loop_pad: "decode_loop (replicate k (CHR ''B'') @ s) 0 = decode_loop s 0"
  by (induction k) (simp_all add: str_index_B)


lemma segments_Nil: "segments [] = []" by (subst segments.simps) simp

lemma segments_concat: "concat (segments xs) = xs"
proof (induction xs rule: segments.induct)
  case (1 out)
  show ?case
  proof (cases "out = []")
    case True then show ?thesis by (simp add: segments_Nil)
  next
    case False with 1 show ?thesis by (subst segments.simps) simp
  qed
qed

lemma segments_blocks:
  "length xs = 5 * m \<Longrightarrow> length (segments xs) = m \<and> (\<forall>s\<in>set (segments xs). length s = 5 \<and> set s \<subseteq> set xs)"
proof (induction m arbitrary: xs)
  case 0 then show ?case by (simp add: segments_Nil)
next
  case (Suc m)
  then have ne: "xs \<noteq> []" and l: "length (drop 5 xs) = 5 * m" by auto
  from Suc.IH [OF l] have ih: "length (segments (drop 5 xs)) = m"
    "\<forall>s\<in>set (segments (drop 5 xs)). length s = 5 \<and> set s \<subseteq> set (drop 5 xs)" by auto
  have seg: "segments xs = take 5 xs # segments (drop 5 xs)"
    using ne by (subst segments.simps) simp
  have "set (take 5 xs) \<subseteq> set xs" "set (drop 5 xs) \<subseteq> set xs"
    by (auto dest: in_set_takeD in_set_dropD)
  with ih Suc.prems show ?case unfolding seg by auto
qed

lemma segments_of_concat:
  "\<forall>s\<in>set segs. length s = 5 \<Longrightarrow> segments (concat segs) = segs"
proof (induction segs)
  case Nil then show ?case by (simp add: segments_Nil)
next
  case (Cons s segs)
  then have "length s = 5" by simp
  then have "s \<noteq> []" by auto
  then have "segments (concat (s # segs)) = take 5 (s @ concat segs) # segments (drop 5 (s @ concat segs))"
    by (subst segments.simps) simp
  with Cons \<open>length s = 5\<close> show ?case by simp
qed

lemma filter_str_join:
  "\<forall>s\<in>set segs. CHR ''-'' \<notin> set s \<Longrightarrow> filter (\<lambda>c. c \<noteq> CHR ''-'') (str_join ''-'' segs) = concat segs"
proof (induction "''-''" segs rule: str_join.induct)
  case 1 then show ?case by simp
next
  case (2 x) then show ?case by (auto simp: filter_id_conv)
next
  case (3 x y ys) then show ?case by (auto simp: filter_id_conv)
qed

lemma length_str_join:
  "\<forall>s\<in>set segs. length s = 5 \<Longrightarrow> segs \<noteq> [] \<Longrightarrow> length (str_join ''-'' segs) = 6 * length segs - 1"
proof (induction "''-''" segs rule: str_join.induct)
  case 1 then show ?case by simp
next
  case (2 x) then show ?case by simp
next
  case (3 x y ys) then show ?case by simp
qed

lemma base24_Nil: "base24_big_endian [] = 0" by (simp add: base24_big_endian_def)

lemma base24_Cons: "base24_big_endian (c # ds) = kdigit c * 24 ^ length ds + base24_big_endian ds"
  by (simp add: base24_big_endian_def sum.lessThan_Suc_shift del: sum.lessThan_Suc)

lemma base24_snoc: "base24_big_endian (ds @ [c]) = 24 * base24_big_endian ds + kdigit c"
  by (induction ds) (simp_all add: base24_Cons base24_Nil algebra_simps)

lemma base24_nonneg: "list_all (\<lambda>c. c \<in> set KCHARS) ds \<Longrightarrow> 0 \<le> base24_big_endian ds"
  by (induction ds) (auto simp: base24_Cons base24_Nil dest: kdigit_range)

lemma base24_zero_iff:
  "list_all (\<lambda>c. c \<in> set KCHARS) ds \<Longrightarrow> base24_big_endian ds = 0 \<longleftrightarrow> list_all (\<lambda>c. c = CHR ''B'') ds"
proof (induction ds rule: rev_induct)
  case Nil then show ?case by (simp add: base24_Nil)
next
  case (snoc c ds)
  then have v: "list_all (\<lambda>c. c \<in> set KCHARS) ds" and c: "c \<in> set KCHARS" by simp_all
  from base24_nonneg [OF v] kdigit_range [OF c]
  have "24 * base24_big_endian ds + kdigit c = 0 \<longleftrightarrow> base24_big_endian ds = 0 \<and> kdigit c = 0"
    by arith
  with snoc.IH [OF v] kdigit_zero_iff [OF c] show ?case by (simp add: base24_snoc)
qed

lemma decode_loop_valid:
  "list_all (\<lambda>c. c \<in> set KCHARS) ds \<Longrightarrow>
   decode_loop ds acc = Inr (acc * 24 ^ length ds + base24_big_endian ds)"
proof (induction ds arbitrary: acc)
  case Nil then show ?case by (simp add: base24_Nil)
next
  case (Cons c ds)
  then have c: "c \<in> set KCHARS" and v: "list_all (\<lambda>c. c \<in> set KCHARS) ds" by simp_all
  from kdigit_range [OF c] have "kdigit c \<noteq> - 1" by auto
  with Cons.IH [OF v] show ?case
    by (simp add: kdigit_str_index [OF c] base24_Cons algebra_simps)
qed

lemma decode_loop_invalid:
  "\<not> list_all (\<lambda>c. c \<in> set KCHARS) ds \<Longrightarrow>
   decode_loop ds acc = Inl (ValueError ''substring not found'')"
proof (induction ds arbitrary: acc)
  case Nil then show ?case by simp
next
  case (Cons c ds)
  show ?case
  proof (cases "c \<in> set KCHARS")
    case True
    from kdigit_range [OF True] have "kdigit c \<noteq> - 1" by auto
    with Cons True show ?thesis by (simp add: kdigit_str_index)
  next
    case False then show ?thesis by (simp add: str_index_notin)
  qed
qed

lemma KCHARS_nth_kdigit: "c \<in> set KCHARS \<Longrightarrow> KCHARS ! nat (kdigit c) = c"
proof -
  assume c: "c \<in> set KCHARS"
  let ?k = "length (takeWhile (\<lambda>x. x \<noteq> c) KCHARS)"
  from takeWhile_neq_less [OF c] have "?k < length KCHARS" .
  from nth_length_takeWhile [OF this] show ?thesis by (simp add: kdigit_def)
qed

lemma encode_loop_base24:
  "list_all (\<lambda>c. c \<in> set KCHARS) ds \<Longrightarrow>
   encode_loop (base24_big_endian ds) out = dropWhile (\<lambda>c. c = CHR ''B'') ds @ out"
proof (induction ds arbitrary: out rule: rev_induct)
  case Nil then show ?case by (subst encode_loop.simps) (simp add: base24_Nil)
next
  case (snoc c ds)
  then have v: "list_all (\<lambda>c. c \<in> set KCHARS) ds" and c: "c \<in> set KCHARS" by simp_all
  let ?v = "base24_big_endian (ds @ [c])"
  have veq: "?v = 24 * base24_big_endian ds + kdigit c" by (rule base24_snoc)
  note kr = kdigit_range [OF c]
  note nn = base24_nonneg [OF v]
  show ?case
  proof (cases "?v > 0")
    case True
    have d: "?v div 24 = base24_big_endian ds" and m: "?v mod 24 = kdigit c"
      using kr by (simp_all add: veq)
    have "encode_loop ?v out = encode_loop (base24_big_endian ds) (c # out)"
      using True by (subst encode_loop.simps) (simp add: d m KCHARS_nth_kdigit [OF c])
    also have "\<dots> = dropWhile (\<lambda>c. c = CHR ''B'') ds @ c # out"
      by (rule snoc.IH [OF v])
    also have "\<dots> = dropWhile (\<lambda>c. c = CHR ''B'') (ds @ [c]) @ out"
    proof (cases "list_all (\<lambda>c. c = CHR ''B'') ds")
      case allB: True
      with base24_zero_iff [OF v] have "base24_big_endian ds = 0" by simp
      with True veq have "kdigit c \<noteq> 0" by simp
      with kdigit_zero_iff [OF c] have "c \<noteq> CHR ''B''" by simp
      with allB show ?thesis by (simp add: dropWhile_append list_all_iff)
    next
      case False
      then show ?thesis by (simp add: dropWhile_append list_all_iff)
    qed
    finally show ?thesis .
  next
    case False
    with nn kr veq have z: "?v = 0" by linarith
    have va: "list_all (\<lambda>c. c \<in> set KCHARS) (ds @ [c])" using v c by simp
    from base24_zero_iff [OF va] z have "list_all (\<lambda>c. c = CHR ''B'') (ds @ [c])" by simp
    then have "dropWhile (\<lambda>c. c = CHR ''B'') (ds @ [c]) = []" by (simp add: list_all_iff)
    then show ?thesis using z by (subst encode_loop.simps) simp
  qed
qed

lemma takeWhile_eq_replicate:
  "takeWhile (\<lambda>x. x = c) xs = replicate (length (takeWhile (\<lambda>x. x = c) xs)) c"
  by (induction xs) auto

lemma rjust_dropWhile:
  "length ds = w \<Longrightarrow> rjust (dropWhile (\<lambda>x. x = c) ds) w c = ds"
proof -
  assume l: "length ds = w"
  have "length (takeWhile (\<lambda>x. x = c) ds) + length (dropWhile (\<lambda>x. x = c) ds) = length ds"
    by (metis length_append takeWhile_dropWhile_id)
  then have "w - length (dropWhile (\<lambda>x. x = c) ds) = length (takeWhile (\<lambda>x. x = c) ds)"
    using l by simp
  then have "rjust (dropWhile (\<lambda>x. x = c) ds) w c = takeWhile (\<lambda>x. x = c) ds @ dropWhile (\<lambda>x. x = c) ds"
    unfolding rjust_def using takeWhile_eq_replicate [of c ds] by simp
  then show ?thesis by simp
qed

lemma encode_loop_chars: "list_all (\<lambda>c. c \<in> set KCHARS) (encode_loop n [])"
  using encode_loop_set [of n "[]"] by (auto simp: list_all_iff)

lemma encode_padded:
  assumes "n < 24 ^ 35"
  shows "length (rjust (encode_loop n []) 35 (KCHARS ! 0)) = 35"
    and "list_all (\<lambda>c. c \<in> set KCHARS) (rjust (encode_loop n []) 35 (KCHARS ! 0))"
proof -
  from encode_loop_length [OF assms, of "[]"] have "length (encode_loop n []) \<le> 35" by simp
  then show "length (rjust (encode_loop n []) 35 (KCHARS ! 0)) = 35" by (simp add: rjust_def)
  show "list_all (\<lambda>c. c \<in> set KCHARS) (rjust (encode_loop n []) 35 (KCHARS ! 0))"
    using encode_loop_chars [of n] B_in_KCHARS by (auto simp: rjust_def KCHARS_0 list_all_iff)
qed

lemma encode_pkey_1: "encode_pkey 1 = Inr ''BBBBB-BBBBB-BBBBB-BBBBB-BBBBB-BBBBB-BBBBC''"
  by code_simp

lemma decode_pkey_join:
  assumes "list_all (\<lambda>s. length s = 5 \<and> list_all (\<lambda>c. c \<in> set KCHARS) s) segs"
  shows "decode_pkey (str_join ''-'' segs) = Inr (base24_big_endian (concat segs))"
proof -
  from assms dash_notin_KCHARS have nd: "\<forall>s\<in>set segs. CHR ''-'' \<notin> set s"
    by (auto simp: list_all_iff)
  have f: "filter (\<lambda>c. c \<noteq> CHR ''-'') (str_join ''-'' segs) = concat segs"
    by (rule filter_str_join [OF nd])
  from assms have "length (concat segs) = 5 * length segs"
    by (induction segs) simp_all
  then have m: "length (concat segs) mod 5 = 0" by simp
  from assms have v: "list_all (\<lambda>c. c \<in> set KCHARS) (concat segs)"
    by (induction segs) simp_all
  show ?thesis
    by (simp add: decode_pkey_def f m decode_loop_valid [OF v])
qed

subsection \<open>Shape of an encoded key\<close>

text \<open>
Claim C1, as the code has it. \<^verbatim>\<open>encode_pkey\<close> pads to 35 characters, not 25: for every
  \<open>n\<close> with \<open>0 < n < 24 ^ 35\<close> (so for every \<open>0 < n < 24 ^ 25\<close>) the result is seven
  dash-separated blocks of five alphabet characters, 41 characters in all; and
  \<^verbatim>\<open>encode_pkey(0)\<close> is the empty string.
\<close>

theorem encode_pkey_shape:
  "encode_pkey 0 = Inr '''' \<and>
   (0 < n \<and> n < 24 ^ 35 \<longrightarrow>
     (\<exists>segs. encode_pkey n = Inr (str_join ''-'' segs) \<and> length segs = 7 \<and>
        list_all (\<lambda>s. length s = 5 \<and> list_all (\<lambda>c. c \<in> set KCHARS) s) segs \<and>
        length (str_join ''-'' segs) = 41))"
proof (intro conjI impI)
  show "encode_pkey 0 = Inr ''''" by (simp add: encode_pkey_def)
next
  assume n: "0 < n \<and> n < 24 ^ 35"
  let ?out = "rjust (encode_loop n []) 35 (KCHARS ! 0)"
  let ?segs = "segments ?out"
  from n encode_padded [of n] have l: "length ?out = 5 * 7"
    and v: "list_all (\<lambda>c. c \<in> set KCHARS) ?out" by simp_all
  from segments_blocks [OF l] have s7: "length ?segs = 7"
    and s5: "\<forall>s\<in>set ?segs. length s = 5 \<and> set s \<subseteq> set ?out" by simp_all
  from s5 v have blocks: "list_all (\<lambda>s. length s = 5 \<and> list_all (\<lambda>c. c \<in> set KCHARS) s) ?segs"
    by (auto simp: list_all_iff)
  from s5 have "\<forall>s\<in>set ?segs. length s = 5" by simp
  moreover from s7 have "?segs \<noteq> []" by auto
  ultimately have "length (str_join ''-'' ?segs) = 6 * length ?segs - 1"
    by (rule length_str_join)
  with s7 have l41: "length (str_join ''-'' ?segs) = 41" by simp
  from n have "encode_pkey n = Inr (str_join ''-'' ?segs)"
    by (simp add: encode_pkey_def Let_def)
  with s7 blocks l41 show "\<exists>segs. encode_pkey n = Inr (str_join ''-'' segs) \<and> length segs = 7 \<and>
        list_all (\<lambda>s. length s = 5 \<and> list_all (\<lambda>c. c \<in> set KCHARS) s) segs \<and>
        length (str_join ''-'' segs) = 41" by blast
qed

theorem encode_pkey_shape_witness:
  "encode_pkey 0 = Inr '''' \<and>
   (\<exists>segs. encode_pkey 1 = Inr (str_join ''-'' segs) \<and> length segs = 7 \<and>
        list_all (\<lambda>s. length s = 5 \<and> list_all (\<lambda>c. c \<in> set KCHARS) s) segs \<and>
        length (str_join ''-'' segs) = 41)"
proof -
  have "0 < (1::int) \<and> (1::int) < 24 ^ 35" by simp
  with encode_pkey_shape [of 1] show ?thesis by blast
qed

text \<open>
Claim C1 as stated fails: \<^verbatim>\<open>encode_pkey(0)\<close> is not the all-\<open>B\<close> key of 29 characters,
  and \<^verbatim>\<open>encode_pkey(1)\<close> has 41 characters, not 29.
\<close>

theorem encode_pkey_29_counterexample:
  "encode_pkey 0 \<noteq> Inr ''BBBBB-BBBBB-BBBBB-BBBBB-BBBBB'' \<and>
   encode_pkey 1 = Inr ''BBBBB-BBBBB-BBBBB-BBBBB-BBBBB-BBBBB-BBBBC'' \<and>
   length ''BBBBB-BBBBB-BBBBB-BBBBB-BBBBB-BBBBB-BBBBC'' \<noteq> 29"
proof -
  have "encode_pkey 0 = Inr ''''" by (simp add: encode_pkey_def)
  then have "encode_pkey 0 \<noteq> Inr ''BBBBB-BBBBB-BBBBB-BBBBB-BBBBB''" by simp
  moreover have "length ''BBBBB-BBBBB-BBBBB-BBBBB-BBBBB-BBBBB-BBBBC'' \<noteq> 29" by simp
  ultimately show ?thesis using encode_pkey_1 by blast
qed

subsection \<open>Round trip of the codec\<close>

text \<open>
Claim C2, as the code has it. Decoding an encoded \<open>n\<close> gives \<open>n\<close> back for every
  \<open>0 \<le> n < 24 ^ 35\<close> (so for every \<open>0 \<le> n < 24 ^ 25\<close>). Encoding a decoded key gives the
  key back for every key of seven dash-separated blocks of five alphabet characters
  other than the all-\<open>B\<close> key.
\<close>

theorem codec_round_trip:
  "(0 \<le> n \<and> n < 24 ^ 35 \<longrightarrow> bindE (encode_pkey n) decode_pkey = Inr n) \<and>
   (length segs = 7 \<and>
    list_all (\<lambda>s. length s = 5 \<and> list_all (\<lambda>c. c \<in> set KCHARS) s) segs \<and>
    \<not> list_all (list_all (\<lambda>c. c = CHR ''B'')) segs \<longrightarrow>
      bindE (decode_pkey (str_join ''-'' segs)) encode_pkey = Inr (str_join ''-'' segs))"
proof (intro conjI impI)
  assume n: "0 \<le> n \<and> n < 24 ^ 35"
  show "bindE (encode_pkey n) decode_pkey = Inr n"
  proof (cases "n = 0")
    case True
    then show ?thesis by (simp add: bindE_def encode_pkey_def decode_pkey_def)
  next
    case False
    let ?out = "rjust (encode_loop n []) 35 (KCHARS ! 0)"
    from n encode_padded [of n] have l: "length ?out = 5 * 7"
      and v: "list_all (\<lambda>c. c \<in> set KCHARS) ?out" by simp_all
    from segments_blocks [OF l] v
    have "list_all (\<lambda>s. length s = 5 \<and> list_all (\<lambda>c. c \<in> set KCHARS) s) (segments ?out)"
      by (auto simp: list_all_iff)
    from decode_pkey_join [OF this]
    have "decode_pkey (str_join ''-'' (segments ?out)) = Inr (base24_big_endian ?out)"
      by (simp add: segments_concat)
    moreover have "Inr (base24_big_endian ?out) = decode_loop ?out 0"
      by (simp add: decode_loop_valid [OF v])
    moreover have "decode_loop ?out 0 = Inr n"
      using n by (simp add: rjust_def KCHARS_0 decode_loop_pad decode_encode_loop)
    ultimately show ?thesis
      using n False by (simp add: bindE_def encode_pkey_def Let_def)
  qed
next
  assume a: "length segs = 7 \<and>
    list_all (\<lambda>s. length s = 5 \<and> list_all (\<lambda>c. c \<in> set KCHARS) s) segs \<and>
    \<not> list_all (list_all (\<lambda>c. c = CHR ''B'')) segs"
  let ?ds = "concat segs"
  let ?v = "base24_big_endian ?ds"
  from a have blocks: "list_all (\<lambda>s. length s = 5 \<and> list_all (\<lambda>c. c \<in> set KCHARS) s) segs" by simp
  then have five: "\<forall>s\<in>set segs. length s = 5" by (simp add: list_all_iff)
  from blocks have v: "list_all (\<lambda>c. c \<in> set KCHARS) ?ds" by (induction segs) simp_all
  from blocks have "length ?ds = 5 * length segs" by (induction segs) simp_all
  with a have l: "length ?ds = 35" by simp
  from a have "\<not> list_all (\<lambda>c. c = CHR ''B'') ?ds" by (auto simp: list_all_iff)
  with base24_zero_iff [OF v] base24_nonneg [OF v] have pos: "0 < ?v" by simp
  have "rjust (encode_loop ?v []) 35 (KCHARS ! 0) = ?ds"
    by (simp add: encode_loop_base24 [OF v] KCHARS_0 rjust_dropWhile [OF l])
  with pos have "encode_pkey ?v = Inr (str_join ''-'' segs)"
    by (simp add: encode_pkey_def Let_def segments_of_concat [OF five])
  then show "bindE (decode_pkey (str_join ''-'' segs)) encode_pkey = Inr (str_join ''-'' segs)"
    by (simp add: bindE_def decode_pkey_join [OF blocks])
qed

theorem codec_round_trip_witness:
  "bindE (encode_pkey 577) decode_pkey = Inr 577 \<and>
   bindE (decode_pkey (str_join ''-'' [''BBBBB'', ''BBBBB'', ''BBBBB'', ''BBBBB'', ''BBBBB'', ''BBBBB'', ''BBCCC'']))
     encode_pkey = Inr (str_join ''-'' [''BBBBB'', ''BBBBB'', ''BBBBB'', ''BBBBB'', ''BBBBB'', ''BBBBB'', ''BBCCC''])"
proof -
  let ?segs = "[''BBBBB'', ''BBBBB'', ''BBBBB'', ''BBBBB'', ''BBBBB'', ''BBBBB'', ''BBCCC'']"
  have n: "0 \<le> (577::int) \<and> (577::int) < 24 ^ 35" by simp
  have B: "CHR ''B'' \<in> set KCHARS" and C: "CHR ''C'' \<in> set KCHARS"
    by (simp_all add: KCHARS_def)
  have s: "length ?segs = 7 \<and>
    list_all (\<lambda>s. length s = 5 \<and> list_all (\<lambda>c. c \<in> set KCHARS) s) ?segs \<and>
    \<not> list_all (list_all (\<lambda>c. c = CHR ''B'')) ?segs"
    by (simp add: B C)
  from codec_round_trip [of 577 ?segs] n s show ?thesis by blast
qed

text \<open>
Claim C2 as stated fails on a key of five blocks of five alphabet characters: it
  decodes to 1, and 1 encodes to a key of seven blocks.
\<close>

theorem codec_round_trip_counterexample:
  "bindE (decode_pkey ''BBBBB-BBBBB-BBBBB-BBBBB-BBBBC'') encode_pkey
     \<noteq> Inr ''BBBBB-BBBBB-BBBBB-BBBBB-BBBBC''"
proof -
  have "decode_pkey ''BBBBB-BBBBB-BBBBB-BBBBB-BBBBC'' = Inr 1" by code_simp
  then show ?thesis by (simp add: bindE_def encode_pkey_1)
qed

subsection \<open>Decoding\<close>

text \<open>
Claim C8. \<^verbatim>\<open>decode_pkey\<close> removes the dashes; when the remaining length is not a
  multiple of 5 it fails with the key-length error; otherwise, when some remaining
  character is outside the alphabet it fails with the ValueError that
  \<^verbatim>\<open>KCHARS.index\<close> raises for that character; otherwise it returns the remaining
  characters read as base-24 digits, most significant first.
\<close>

theorem decode_pkey_spec:
  "decode_pkey key =
     (let key_string = filter (\<lambda>c. c \<noteq> CHR ''-'') key in
      if length key_string mod 5 \<noteq> 0 then Inl (ValueError ''Bad key length'')
      else if \<not> list_all (\<lambda>c. c \<in> set KCHARS) key_string
        then Inl (ValueError ''substring not found'')
      else Inr (base24_big_endian key_string))"
  by (simp add: decode_pkey_def Let_def decode_loop_valid decode_loop_invalid)

theorem decode_pkey_spec_witness:
  "decode_pkey ''BBB-C'' = Inl (ValueError ''Bad key length'') \<and>
   decode_pkey ''BBA-DD'' = Inl (ValueError ''substring not found'') \<and>
   decode_pkey ''BBC-DD'' = Inr 626"
proof -
  have B: "CHR ''B'' \<in> set KCHARS" and C: "CHR ''C'' \<in> set KCHARS"
    and D: "CHR ''D'' \<in> set KCHARS" and A: "CHR ''A'' \<notin> set KCHARS"
    by (simp_all add: KCHARS_def)
  have kB: "kdigit (CHR ''B'') = 0" and kC: "kdigit (CHR ''C'') = 1"
    and kD: "kdigit (CHR ''D'') = 2"
    by (simp_all add: kdigit_def KCHARS_def)
  have v: "base24_big_endian ''BBCDD'' = 626"
    by (simp add: base24_Cons base24_Nil kB kC kD)
  have "decode_pkey ''BBB-C'' = Inl (ValueError ''Bad key length'')"
    using decode_pkey_spec [of "''BBB-C''"] by simp
  moreover have "decode_pkey ''BBA-DD'' = Inl (ValueError ''substring not found'')"
    using decode_pkey_spec [of "''BBA-DD''"] by (simp add: A B D)
  moreover have "decode_pkey ''BBC-DD'' = Inr 626"
    using decode_pkey_spec [of "''BBC-DD''"] by (simp add: B C D v)
  ultimately show ?thesis by blast
qed

text \<open>
Claim C9. \<^verbatim>\<open>decode_pkey\<close> returns 0 on the empty string and on every string of
  dashes only, and decoding \<^verbatim>\<open>encode_pkey(0)\<close> gives 0.
\<close>

theorem decode_pkey_dashes:
  "(set key \<subseteq> {CHR ''-''} \<longrightarrow> decode_pkey key = Inr 0) \<and>
   bindE (encode_pkey 0) decode_pkey = Inr 0"
proof (intro conjI impI)
  assume "set key \<subseteq> {CHR ''-''}"
  then have "filter (\<lambda>c. c \<noteq> CHR ''-'') key = []" by (auto simp: filter_empty_conv)
  then show "decode_pkey key = Inr 0" by (simp add: decode_pkey_def)
next
  show "bindE (encode_pkey 0) decode_pkey = Inr 0"
    by (simp add: bindE_def encode_pkey_def decode_pkey_def)
qed

theorem decode_pkey_dashes_witness:
  "decode_pkey '''' = Inr 0 \<and> decode_pkey ''---'' = Inr 0 \<and>
   bindE (encode_pkey 0) decode_pkey = Inr 0"
  using decode_pkey_dashes [of "''''"] decode_pkey_dashes [of "''---''"] by simp

subsection \<open>Version code of an LKP\<close>

text \<open>
Claim C3, as the code has it. For unsigned \<open>major\<close> and \<open>minor\<close> the version code is 1
  exactly when \<open>major < 5\<close>, or \<open>major = 5\<close> and \<open>minor = 0\<close>; for \<open>major > 5\<close>, and for
  \<open>major = 5\<close> with \<open>minor > 0\<close>, it is \<open>(major << 3) | minor\<close>.
\<close>

theorem lkp_version_cases:
  "0 \<le> major_ver \<and> 0 \<le> minor_ver \<longrightarrow>
     (lkp_version major_ver minor_ver = 1 \<longleftrightarrow>
        major_ver < 5 \<or> (major_ver = 5 \<and> minor_ver = 0)) \<and>
     (major_ver > 5 \<or> (major_ver = 5 \<and> minor_ver > 0) \<longrightarrow>
        lkp_version major_ver minor_ver = push_bit 3 major_ver OR minor_ver)"
proof (intro impI conjI)
  assume nn: "0 \<le> major_ver \<and> 0 \<le> minor_ver"
  show "lkp_version major_ver minor_ver = 1 \<longleftrightarrow> major_ver < 5 \<or> (major_ver = 5 \<and> minor_ver = 0)"
  proof (cases "(major_ver = 5 \<and> minor_ver > 0) \<or> major_ver > 5")
    case True
    from nn have "push_bit 3 major_ver \<le> push_bit 3 major_ver OR minor_ver"
      by (simp add: or_greater_eq)
    moreover from True have "40 \<le> push_bit 3 major_ver" by (auto simp: push_bit_eq_mult)
    ultimately have "lkp_version major_ver minor_ver \<noteq> 1" using True
      by (simp add: lkp_version_def)
    with True show ?thesis by auto
  next
    case False
    with nn show ?thesis by (auto simp: lkp_version_def)
  qed
next
  assume "major_ver > 5 \<or> (major_ver = 5 \<and> minor_ver > 0)"
  then show "lkp_version major_ver minor_ver = push_bit 3 major_ver OR minor_ver"
    by (auto simp: lkp_version_def)
qed

theorem lkp_version_cases_witness:
  "lkp_version 5 0 = 1 \<and> lkp_version 3 7 = 1 \<and> lkp_version 10 2 = push_bit 3 10 OR 2"
  using lkp_version_cases [of 5 0] lkp_version_cases [of 3 7] lkp_version_cases [of 10 2]
  by simp

text \<open>
Claim C3 as stated fails at version 4.2: the code is 1 although the version is not
  5.0, and \<open>(4 << 3) | 2\<close> is 34.
\<close>

theorem lkp_version_counterexample:
  "lkp_version 4 2 = 1 \<and> push_bit 3 (4::int) OR 2 = 34 \<and> \<not> (4 = (5::int) \<and> 2 = (0::int))"
proof -
  have "push_bit 3 (4::int) OR 2 = 34" by code_simp
  then show ?thesis by (simp add: lkp_version_def)
qed

subsection \<open>RC4\<close>

lemma rc4_state_swap: "rc4_state s \<Longrightarrow> i < 256 \<Longrightarrow> j < 256 \<Longrightarrow> rc4_state (swap s i j)"
  unfolding rc4_state_def swap_def list_all_iff
  by (auto dest!: set_update_subset_insert [THEN subsetD])

lemma rc4_state_init: "rc4_state [0..<256]"
  by (simp add: rc4_state_def list_all_iff)

lemma ksa_fold_state:
  "rc4_state s \<Longrightarrow> list_all (\<lambda>i. i < 256) xs \<Longrightarrow>
   rc4_state (snd (fold (ksa_step key) xs (j, s)))"
proof (induction xs arbitrary: j s)
  case Nil then show ?case by simp
next
  case (Cons i xs)
  let ?j = "(j + s ! i + unat (key ! (i mod length key))) mod 256"
  from Cons.prems have "rc4_state (swap s i ?j)" by (simp add: rc4_state_swap)
  from Cons.IH [OF this, of ?j] Cons.prems show ?case
    by (simp add: ksa_step_def Let_def)
qed

lemma ksa_state: "rc4_state (ksa key)"
  unfolding ksa_def by (rule ksa_fold_state [OF rc4_state_init]) (simp add: list_all_iff)

lemma prga_step_state:
  assumes "rc4_state s" and "prga_step i j s = ((i', j', s'), k)"
  shows "rc4_state s' \<and> i' < 256 \<and> j' < 256 \<and> k < 256"
proof -
  let ?i = "(i + 1) mod 256"
  let ?j = "(j + s ! ?i) mod 256"
  let ?s = "swap s ?i ?j"
  from assms(2) have e: "i' = ?i" "j' = ?j" "s' = ?s" "k = ?s ! ((?s ! ?i + ?s ! ?j) mod 256)"
    by (auto simp: prga_step_def Let_def)
  have st: "rc4_state ?s" using assms(1) by (simp add: rc4_state_swap)
  then have "?s ! ((?s ! ?i + ?s ! ?j) mod 256) < 256"
    by (simp add: rc4_state_def list_all_length)
  with st e show ?thesis by simp
qed

lemma xor_twice: "(a XOR b) XOR b = (a :: byte)"
  by (simp add: xor.assoc)

lemma prga_prga: "prga i j s (prga i j s data) = data"
  by (induction data arbitrary: i j s) (simp_all add: xor_twice split: prod.splits)

lemma prga_length: "length (prga i j s data) = length data"
  by (induction data arbitrary: i j s) (simp_all split: prod.splits)

text \<open>
Claim C7. For every non-empty key and every byte string \<open>data\<close>, encrypting twice
  with the same key returns \<open>data\<close>: neither call raises, and the second undoes the first.
\<close>

theorem rc4_involution:
  "key \<noteq> [] \<Longrightarrow> bindE (rc4 key data) (rc4 key) = Inr data"
  by (simp add: rc4_def bindE_def prga_prga)

lemma rc4_empty_key: "rc4 [] data = Inl ZeroDivisionError"
  by (simp add: rc4_def)

theorem rc4_involution_witness:
  "bindE (rc4 [75, 101, 121] [80, 108, 97]) (rc4 [75, 101, 121]) = Inr [80, 108, 97]"
proof -
  have "[75, 101, 121] \<noteq> ([] :: byte list)" by simp
  from rc4_involution [OF this] show ?thesis .
qed

subsection \<open>SPK ID\<close>

lemma digit_value_range: "is_digit c \<Longrightarrow> 0 \<le> digit_value c \<and> digit_value c \<le> 9"
  by (auto simp: is_digit_def digit_value_def)

lemma int_digits_bound:
  "int_digits cs acc = Some v \<Longrightarrow> 0 \<le> acc \<Longrightarrow> 0 \<le> v \<and> v < (acc + 1) * 10 ^ length cs"
proof (induction cs arbitrary: acc)
  case Nil then show ?case by simp
next
  case (Cons c cs)
  show ?case
  proof (cases "is_digit c")
    case True
    from digit_value_range [OF True] have d: "0 \<le> digit_value c" "digit_value c \<le> 9" by simp_all
    from Cons.prems True have "int_digits cs (acc * 10 + digit_value c) = Some v" by simp
    from Cons.IH [OF this] d Cons.prems
    have v: "0 \<le> v" "v < (acc * 10 + digit_value c + 1) * 10 ^ length cs" by simp_all
    have "(acc * 10 + digit_value c + 1) * 10 ^ length cs \<le> (acc * 10 + 10) * 10 ^ length cs"
      using d by (intro mult_right_mono) simp_all
    also have "\<dots> = (acc + 1) * 10 ^ length (c # cs)" by (simp add: algebra_simps)
    finally have "(acc * 10 + digit_value c + 1) * 10 ^ length cs \<le> (acc + 1) * 10 ^ length (c # cs)" .
    with v show ?thesis by linarith
  next
    case False
    with Cons.prems have "int_digits cs acc = Some v" by (simp split: if_splits)
    from Cons.IH [OF this] Cons.prems have v: "0 \<le> v" "v < (acc + 1) * 10 ^ length cs" by simp_all
    have "(acc + 1) * 10 ^ length cs \<le> (acc + 1) * 10 ^ length (c # cs)"
      using Cons.prems by (simp add: mult_left_mono)
    with v show ?thesis by linarith
  qed
qed

lemma length_strip: "length (rev (dropWhile P (rev (dropWhile P s)))) \<le> length s"
proof -
  have "length (dropWhile P (rev (dropWhile P s))) \<le> length (rev (dropWhile P s))"
    by (rule length_dropWhile_le)
  also have "\<dots> \<le> length s" by (simp add: length_dropWhile_le)
  finally show ?thesis by simp
qed

lemma set_strip: "set (rev (dropWhile P (rev (dropWhile P s)))) \<subseteq> set s"
proof
  fix x assume "x \<in> set (rev (dropWhile P (rev (dropWhile P s))))"
  then have "x \<in> set (dropWhile P (rev (dropWhile P s)))" by simp
  then have "x \<in> set (rev (dropWhile P s))" by (rule set_dropWhileD)
  then have "x \<in> set (dropWhile P s)" by simp
  then show "x \<in> set s" by (rule set_dropWhileD)
qed

lemma py_int_bound:
  assumes "py_int str = Inr v" and "CHR ''-'' \<notin> set str"
  shows "0 \<le> v \<and> v < 10 ^ length str"
proof -
  let ?s = "rev (dropWhile is_space (rev (dropWhile is_space str)))"
  have len: "length ?s \<le> length str" by (rule length_strip)
  have nd: "CHR ''-'' \<notin> set ?s" using set_strip [of is_space str] assms(2) by auto
  then have hd: "?s \<noteq> [] \<Longrightarrow> hd ?s \<noteq> CHR ''-''" by (cases ?s) auto
  obtain body where b: "int_digits body 0 = Some v" and bl: "length body \<le> length ?s"
  proof (cases "?s \<noteq> [] \<and> hd ?s = CHR ''+''")
    case True
    with assms(1) have "int_digits (tl ?s) 0 = Some v"
      by (simp add: py_int_def Let_def split: if_splits option.splits)
    then show ?thesis using that [of "tl ?s"] by simp
  next
    case False
    with assms(1) hd have "int_digits ?s 0 = Some v"
      by (auto simp: py_int_def Let_def split: if_splits option.splits)
    then show ?thesis using that [of ?s] by simp
  qed
  from int_digits_bound [OF b] have v: "0 \<le> v" "v < 10 ^ length body" by simp_all
  have "(10::int) ^ length body \<le> 10 ^ length str"
    using bl len by (intro power_increasing) simp_all
  with v show ?thesis by linarith
qed

lemma le_bytes_length: "length (le_bytes len n) = len"
  by (induction len arbitrary: n) simp_all

text \<open>
Claim C10. When \<^verbatim>\<open>get_spkid\<close> succeeds, the PID has at least 23 characters, the
  SPK ID is read from at most 11 characters, it is not negative and below
  \<open>10 ^ 11 < 2 ^ 41\<close>, and the payload step of \<^verbatim>\<open>generate_spk\<close> returns its 7 bytes:
  neither the serialisation nor the length test raises.
\<close>

theorem get_spkid_fits:
  assumes "get_spkid pid = Inr v"
  shows "23 \<le> length pid \<and> 0 \<le> v \<and> v < 10 ^ 11 \<and> v < 2 ^ 41 \<and>
         spk_payload pid = Inr (le_bytes 7 v) \<and> length (le_bytes 7 v) = 7"
proof -
  from assms have l: "23 \<le> length pid" by (simp add: get_spkid_def split: if_splits)
  let ?str = "takeWhile (\<lambda>c. c \<noteq> CHR ''-'') (take 6 (drop 10 pid) @ take 5 (drop 18 pid))"
  from assms l have p: "py_int ?str = Inr v" by (simp add: get_spkid_def Let_def)
  have nd: "CHR ''-'' \<notin> set ?str" by (auto dest: set_takeWhileD)
  have "length ?str \<le> length (take 6 (drop 10 pid) @ take 5 (drop 18 pid))"
    by (rule length_takeWhile_le)
  also have "\<dots> \<le> 11" by simp
  finally have len: "length ?str \<le> 11" .
  from py_int_bound [OF p nd] have v: "0 \<le> v" "v < 10 ^ length ?str" by simp_all
  have "(10::int) ^ length ?str \<le> 10 ^ 11" using len by (intro power_increasing) simp_all
  with v have v11: "v < 10 ^ 11" by linarith
  then have v41: "v < 2 ^ 41" and v56: "v < 256 ^ 7" by simp_all
  from v v56 have "bigint_to_bytes_le v 7 = Inr (le_bytes 7 v)"
    by (simp add: bigint_to_bytes_le_def)
  then have "spk_payload pid = Inr (le_bytes 7 v)"
    using assms by (simp add: spk_payload_def bindE_def le_bytes_length)
  with l v v11 v41 show ?thesis by (simp add: le_bytes_length)
qed

lemma get_spkid_example: "get_spkid ''00490-92005-99454-AT527'' = Inr 5"
  by code_simp

theorem get_spkid_fits_witness:
  "spk_payload ''00490-92005-99454-AT527'' = Inr (le_bytes 7 5) \<and> (5::int) < 10 ^ 11"
  using get_spkid_fits [OF get_spkid_example] by simp

subsection \<open>Modular inverse and a doubling on the SPK curve\<close>

lemma extended_gcd_bezout:
  "0 \<le> a \<Longrightarrow> 0 \<le> b \<Longrightarrow> extended_gcd a b = (g, x, y) \<Longrightarrow> g = gcd a b \<and> a * x + b * y = g"
proof (induction a b arbitrary: g x y rule: extended_gcd.induct)
  case (1 a b)
  show ?case
  proof (cases "a = 0")
    case True
    with "1.prems" show ?thesis by (simp add: extended_gcd.simps [of 0 b])
  next
    case False
    obtain g1 x1 y1 where r: "extended_gcd (b mod a) a = (g1, x1, y1)"
      by (cases "extended_gcd (b mod a) a") auto
    from "1.prems" False have a: "0 < a" by simp
    then have m: "0 \<le> b mod a" by simp
    from "1.IH" [OF False m "1.prems"(1) r]
    have ih: "g1 = gcd (b mod a) a" "(b mod a) * x1 + a * y1 = g1" by simp_all
    from "1.prems"(3) False r have e: "g = g1" "x = y1 - (b div a) * x1" "y = x1"
      by (auto simp: extended_gcd.simps [of a b] Let_def)
    have "gcd (b mod a) a = gcd a b" by (metis gcd.commute gcd_red_int)
    moreover have "a * x + b * y = (b mod a) * x1 + a * y1"
    proof -
      have "a * x + b * y = a * y1 + (b - a * (b div a)) * x1"
        unfolding e by (simp add: algebra_simps)
      also have "b - a * (b div a) = b mod a" by (simp add: minus_mult_div_eq_mod)
      finally show ?thesis by (simp add: algebra_simps)
    qed
    ultimately show ?thesis using ih e by simp
  qed
qed

lemma mod_inverse_eq:
  assumes m: "1 < m" and v: "0 \<le> v" "v < m" and c: "(a * v) mod m = 1"
  shows "mod_inverse a m = Inr v"
proof -
  obtain g x y where r: "extended_gcd (a mod m) m = (g, x, y)"
    by (cases "extended_gcd (a mod m) m") auto
  from m have am: "0 \<le> a mod m" by simp
  from m have m0: "0 \<le> m" by simp
  from extended_gcd_bezout [OF am m0 r]
  have g: "g = gcd (a mod m) m" and bz: "(a mod m) * x + m * y = g" by simp_all
  have "gcd (a mod m) m = gcd a m"
    by (metis gcd.commute gcd_red_int)
  then have ga: "g = gcd a m" using g by simp
  have "gcd a m dvd a * v" by simp
  moreover have "gcd a m dvd m * ((a * v) div m)" by simp
  ultimately have "gcd a m dvd a * v - m * ((a * v) div m)" by (rule dvd_diff)
  moreover have "a * v - m * ((a * v) div m) = (a * v) mod m"
    by (simp add: minus_mult_div_eq_mod)
  ultimately have "gcd a m dvd 1" using c by simp
  then have g1: "g = 1" using ga by simp
  have "((a mod m) * x + m * y) mod m = 1" using bz g1 m by simp
  then have ax: "(a * x) mod m = 1" by (simp add: mod_mult_left_eq)
  have "x mod m = (x * ((a * v) mod m)) mod m" using c by simp
  also have "\<dots> = (((a * x) mod m) * v) mod m"
    by (simp add: mod_mult_right_eq mod_mult_left_eq ac_simps)
  also have "\<dots> = v" using ax v by simp
  finally have xv: "x mod m = v" .
  have "(v + m) mod m = v" using v by simp
  with r g1 m xv show ?thesis by (simp add: mod_inverse_def)
qed

lemma mod_certificate: "a = q * m + r \<Longrightarrow> 0 \<le> r \<Longrightarrow> r < m \<Longrightarrow> a mod m = (r :: int)"
  by (simp add: mod_pos_pos_trivial)

lemma SPKCurve_sel:
  "curve_a SPKCurve = 1"
  "curve_p SPKCurve = 21782971228112002125810473336838725345308036616026120243639513697227789232461459408261967852943809534324870610618161"
  "curve_n SPKCurve = 629063109922370885449"
  "curve_Gx SPKCurve = 10692194187797070010417373067833672857716423048889432566885309624149667762706899929433420143814127803064297378514651"
  "curve_Gy SPKCurve = 14587399915883137990539191966406864676102477026583239850923355829082059124877792299572208431243410905713755917185109"
  "curve_priv SPKCurve = 153862071918555979944"
  by (simp_all add: SPKCurve_def)

lemma point_add_double:
  assumes "\<not> pt_infinity P"
    and "mod_inverse (2 * pt_y P) (curve_p (pt_curve P)) = Inr i"
    and "((3 * pt_x P * pt_x P + curve_a (pt_curve P)) * i) mod curve_p (pt_curve P) = s"
    and "(s * s - pt_x P - pt_x P) mod curve_p (pt_curve P) = x3"
    and "(s * (pt_x P - x3) - pt_y P) mod curve_p (pt_curve P) = y3"
  shows "point_add P P = Inr (EllipticCurvePoint x3 y3 (pt_curve P))"
  using assms by (simp add: point_add_def bindE_def Let_def)

lemma point_add_G_G:
  "point_add (EllipticCurvePoint (curve_Gx SPKCurve) (curve_Gy SPKCurve) SPKCurve)
             (EllipticCurvePoint (curve_Gx SPKCurve) (curve_Gy SPKCurve) SPKCurve)
   = Inr (EllipticCurvePoint
       21036486395303527771931978714976531267483629040825486286070498427610147379952719009211579110746830806958937998231711
       12328385334986615746789058092602254438543232472909328782621894024437859466186906970481922572601422137464341627268971
       (pt_curve (EllipticCurvePoint (curve_Gx SPKCurve) (curve_Gy SPKCurve) SPKCurve)))"
proof (rule point_add_double [where i = "16690652856344224318630685634227610189158368100679543144085947531787104197118569852910225186301290587785940487771315" and s = "18980926229795262910020591546309744776357563789552187096435791562693684619492604805609613198238491377506953552144761"])
  show "\<not> pt_infinity (EllipticCurvePoint (curve_Gx SPKCurve) (curve_Gy SPKCurve) SPKCurve)"
    by (simp add: EllipticCurvePoint_def)
next
  show "mod_inverse (2 * pt_y (EllipticCurvePoint (curve_Gx SPKCurve) (curve_Gy SPKCurve) SPKCurve))
       (curve_p (pt_curve (EllipticCurvePoint (curve_Gx SPKCurve) (curve_Gy SPKCurve) SPKCurve))) = Inr
    16690652856344224318630685634227610189158368100679543144085947531787104197118569852910225186301290587785940487771315"
  proof (rule mod_inverse_eq)
    show "2 * pt_y (EllipticCurvePoint (curve_Gx SPKCurve) (curve_Gy SPKCurve) SPKCurve) * 16690652856344224318630685634227610189158368100679543144085947531787104197118569852910225186301290587785940487771315
       mod curve_p (pt_curve (EllipticCurvePoint (curve_Gx SPKCurve) (curve_Gy SPKCurve) SPKCurve)) = 1"
      by (rule mod_certificate [where q = "22354455278208892596754797808850791610145987526010526812379756626917378279408385412360982177967356695932427611570029"]) (simp_all add: EllipticCurvePoint_def SPKCurve_sel)
  qed (simp_all add: EllipticCurvePoint_def SPKCurve_sel)
next
  show "(3 * pt_x (EllipticCurvePoint (curve_Gx SPKCurve) (curve_Gy SPKCurve) SPKCurve) *
         pt_x (EllipticCurvePoint (curve_Gx SPKCurve) (curve_Gy SPKCurve) SPKCurve) +
         curve_a (pt_curve (EllipticCurvePoint (curve_Gx SPKCurve) (curve_Gy SPKCurve) SPKCurve))) *
        16690652856344224318630685634227610189158368100679543144085947531787104197118569852910225186301290587785940487771315
        mod curve_p (pt_curve (EllipticCurvePoint (curve_Gx SPKCurve) (curve_Gy SPKCurve) SPKCurve)) =
        18980926229795262910020591546309744776357563789552187096435791562693684619492604805609613198238491377506953552144761"
    by (rule mod_certificate [where q = "262791392790754142804338732864321713659622506717479088976226583704248486735639601164517466180200137662613277665996686353049679756122108477365220746308489209901237121901280088970848045834490580443740364598324284063287966306267620059"]) (simp_all add: EllipticCurvePoint_def SPKCurve_sel)
next
  show "(18980926229795262910020591546309744776357563789552187096435791562693684619492604805609613198238491377506953552144761 * 18980926229795262910020591546309744776357563789552187096435791562693684619492604805609613198238491377506953552144761 -
         pt_x (EllipticCurvePoint (curve_Gx SPKCurve) (curve_Gy SPKCurve) SPKCurve) -
         pt_x (EllipticCurvePoint (curve_Gx SPKCurve) (curve_Gy SPKCurve) SPKCurve))
        mod curve_p (pt_curve (EllipticCurvePoint (curve_Gx SPKCurve) (curve_Gy SPKCurve) SPKCurve)) =
        21036486395303527771931978714976531267483629040825486286070498427610147379952719009211579110746830806958937998231711"
    by (rule mod_certificate [where q = "16539321324355254964823919353577537411691553110606091585471556177616771644031322053210290605733452847090619550921628"]) (simp_all add: EllipticCurvePoint_def SPKCurve_sel)
next
  show "(18980926229795262910020591546309744776357563789552187096435791562693684619492604805609613198238491377506953552144761 * (pt_x (EllipticCurvePoint (curve_Gx SPKCurve) (curve_Gy SPKCurve) SPKCurve) - 21036486395303527771931978714976531267483629040825486286070498427610147379952719009211579110746830806958937998231711) -
         pt_y (EllipticCurvePoint (curve_Gx SPKCurve) (curve_Gy SPKCurve) SPKCurve))
        mod curve_p (pt_curve (EllipticCurvePoint (curve_Gx SPKCurve) (curve_Gy SPKCurve) SPKCurve)) =
        12328385334986615746789058092602254438543232472909328782621894024437859466186906970481922572601422137464341627268971"
    by (rule mod_certificate [where q = "- 9013657743656847927359366661437804675316979497595129063723978460505742426957883773169482693331443936872925242482340"]) (simp_all add: EllipticCurvePoint_def SPKCurve_sel)
qed

subsection \<open>Accepted signatures\<close>

lemma bytes_to_bigint_le_bound:
  "0 \<le> bytes_to_bigint_le data \<and> bytes_to_bigint_le data < 256 ^ length data"
proof (induction data)
  case Nil then show ?case by simp
next
  case (Cons b data)
  have "uint b < 256" using uint_bounded [of b] by simp
  moreover have "0 \<le> uint b" by simp
  moreover from Cons have "bytes_to_bigint_le data + 1 \<le> 256 ^ length data" by simp
  then have "256 * (bytes_to_bigint_le data + 1) \<le> 256 * 256 ^ length data"
    by (rule mult_left_mono) simp
  ultimately show ?case using Cons by (simp add: algebra_simps)
qed

lemma bytes4_bound:
  "0 \<le> bytes_to_bigint_le (take 4 md) \<and> bytes_to_bigint_le (take 4 md) < 2 ^ 32"
proof -
  have "(256::int) ^ length (take 4 md) \<le> 256 ^ 4" by (intro power_increasing) simp_all
  with bytes_to_bigint_le_bound [of "take 4 md"] show ?thesis by simp
qed

lemma signature_hash_bound:
  assumes "signature_hash sha1 keydata_inner R = Inr h"
  shows "0 \<le> h \<and> h < 2 ^ 35"
proof -
  from assms obtain md where h: "h = push_bit 32 (drop_bit 29 (bytes_to_bigint_le (take 4 (drop 4 md))))
      OR bytes_to_bigint_le (take 4 md)"
    by (auto simp: signature_hash_def bindE_def Let_def split: sum.splits)
  let ?p1 = "bytes_to_bigint_le (take 4 md)"
  let ?p2i = "bytes_to_bigint_le (take 4 (drop 4 md))"
  from bytes4_bound [of md] have p1: "0 \<le> ?p1" "?p1 < 2 ^ 32" by simp_all
  from bytes4_bound [of "drop 4 md"] have p2i: "0 \<le> ?p2i" "?p2i < 2 ^ 32" by simp_all
  have p2: "0 \<le> drop_bit 29 ?p2i" "drop_bit 29 ?p2i < 8"
    using p2i by (simp_all add: drop_bit_eq_div div_less_iff_less_mult)
  have hi: "0 \<le> push_bit 32 (drop_bit 29 ?p2i)" "push_bit 32 (drop_bit 29 ?p2i) < 2 ^ 35"
    using p2 by (simp_all add: push_bit_eq_mult)
  from p1 have "?p1 < 2 ^ 35" by simp
  with hi have "push_bit 32 (drop_bit 29 ?p2i) OR ?p1 < 2 ^ 35"
    by (intro OR_upper) simp_all
  moreover have "0 \<le> push_bit 32 (drop_bit 29 ?p2i) OR ?p1" using hi p1 by simp
  ultimately show ?thesis by (simp add: h)
qed

lemma mask39: "(0x7FFFFFFFFF :: int) = 2 ^ 39 - 1" by simp
lemma mask69: "(0x1FFFFFFFFFFFFFFFFF :: int) = 2 ^ 69 - 1" by simp

lemma and_mask_id: "0 \<le> h \<Longrightarrow> h < 2 ^ n \<Longrightarrow> h AND (2 ^ n - 1) = (h :: int)"
proof -
  assume "0 \<le> h" "h < 2 ^ n"
  then have "take_bit n h = h" by (simp add: take_bit_int_eq_self)
  then show ?thesis by (simp add: take_bit_eq_mask mask_eq_exp_minus_1)
qed

lemma le_bytes_nth: "i < len \<Longrightarrow> le_bytes len n ! i = word_of_int (n div 256 ^ i)"
proof (induction len arbitrary: n i)
  case 0 then show ?case by simp
next
  case (Suc len)
  show ?case
  proof (cases i)
    case 0 then show ?thesis by simp
  next
    case (Suc j)
    with Suc.prems have "j < len" by simp
    from Suc.IH [OF this, of "n div 256"] Suc show ?thesis
      by (simp add: zdiv_zmult2_eq)
  qed
qed


lemma point_add_infinity_left:
  "point_add (infinity_point c) (EllipticCurvePoint x y c) = Inr (EllipticCurvePoint x y c)"
  by (simp add: point_add_def infinity_point_def EllipticCurvePoint_def)

lemma mul_loop_0: "mul_loop 0 result addend = Inr result"
  by (simp add: mul_loop.simps [of 0])

lemma point_mul_1:
  assumes "point_add (EllipticCurvePoint x y c) (EllipticCurvePoint x y c) = Inr Q"
  shows "point_mul (EllipticCurvePoint x y c) 1 = Inr (EllipticCurvePoint x y c)"
proof -
  have c: "pt_curve (EllipticCurvePoint x y c) = c" by (simp add: EllipticCurvePoint_def)
  have "mul_loop 1 (infinity_point c) (EllipticCurvePoint x y c) = Inr (EllipticCurvePoint x y c)"
    by (subst mul_loop.simps) (simp add: point_add_infinity_left assms mul_loop_0)
  then show ?thesis by (simp add: point_mul_def c)
qed

lemma sign_attempt_example:
  "sign_attempt (\<lambda>msg. [0, 0, 0, 0, 0, 0, 0, 0, 0, 0, 0, 0, 0, 0, 0, 0, 0, 0, 0, 0])
     [0, 0, 0, 0, 0, 0, 0] SPKCurve 1 = Inr (Some (1, 0))"
proof -
  let ?G = "EllipticCurvePoint (curve_Gx SPKCurve) (curve_Gy SPKCurve) SPKCurve"
  have pm: "point_mul ?G 1 = Inr ?G" by (rule point_mul_1 [OF point_add_G_G])
  have xy: "pt_x ?G = curve_Gx SPKCurve" "pt_y ?G = curve_Gy SPKCurve"
    by (simp_all add: EllipticCurvePoint_def)
  have bgx: "bigint_to_bytes_le (curve_Gx SPKCurve) 48 = Inr (le_bytes 48 (curve_Gx SPKCurve))"
    by (simp add: bigint_to_bytes_le_def SPKCurve_sel)
  have bgy: "bigint_to_bytes_le (curve_Gy SPKCurve) 48 = Inr (le_bytes 48 (curve_Gy SPKCurve))"
    by (simp add: bigint_to_bytes_le_def SPKCurve_sel)
  have sh: "signature_hash (\<lambda>msg. [0, 0, 0, 0, 0, 0, 0, 0, 0, 0, 0, 0, 0, 0, 0, 0, 0, 0, 0, 0])
     [0, 0, 0, 0, 0, 0, 0] ?G = Inr 0"
    by (simp add: signature_hash_def xy bgx bgy bindE_def Let_def)
  have m: "(1::int) AND 0x1FFFFFFFFFFFFFFFFF = 1" by simp
  show ?thesis
    by (simp add: sign_attempt_def Let_def pm sh bindE_def) (simp add: SPKCurve_sel)
qed


text \<open>
  Claim C4. When the loop body of \<^verbatim>\<open>generate_tskey\<close> reaches the packing step with
  \<open>s\<close> and \<open>h\<close>, then \<open>s\<close> equals its 69-bit masking and is strictly below \<open>2 ^ 69 - 1\<close>,
  \<open>h\<close> is the hash itself and is strictly below \<open>2 ^ 35\<close>, the packed value is below
  \<open>2 ^ 104\<close>, and its 14-byte serialisation succeeds with a last byte of 0.
\<close>

theorem accepted_signature_bounds:
  assumes "sign_attempt sha1 keydata_inner curve c_nonce = Inr (Some (s, h))"
  shows "0 \<le> s \<and> s < 2 ^ 69 - 1 \<and> s AND 0x1FFFFFFFFFFFFFFFFF = s \<and>
         0 \<le> h \<and> h < 2 ^ 35 \<and>
         (\<exists>R. signature_hash sha1 keydata_inner R = Inr h) \<and>
         push_bit 35 s OR h < 2 ^ 104 \<and>
         (\<exists>sigdata_bytes. pack_signature s h = Inr sigdata_bytes \<and>
            length sigdata_bytes = 14 \<and> sigdata_bytes ! 13 = 0)"
proof -
  from assms obtain R h0 where hh: "signature_hash sha1 keydata_inner R = Inr h0"
    and n0: "curve_n curve \<noteq> 0"
    and acc: "(let s0 = (c_nonce - curve_priv curve * h0) mod curve_n curve;
             s_masked = s0 AND 0x1FFFFFFFFFFFFFFFFF;
             h_masked = h0 AND 0x7FFFFFFFFF
         in if s_masked \<noteq> s0 \<or> s_masked \<ge> 0x1FFFFFFFFFFFFFFFFF then Inr None
            else Inr (Some (s_masked, h_masked))) = (Inr (Some (s, h)) :: error + (int \<times> int) option)"
    by (auto simp: sign_attempt_def bindE_def Let_def split: sum.splits if_splits)
  from signature_hash_bound [OF hh] have h0: "0 \<le> h0" "h0 < 2 ^ 35" by simp_all
  from acc have sm: "s AND 0x1FFFFFFFFFFFFFFFFF = s" and slt: "s < 0x1FFFFFFFFFFFFFFFFF"
    and hm: "h = h0 AND 0x7FFFFFFFFF"
    by (auto simp: Let_def split: if_splits)
  from h0 have "h0 < 2 ^ 39" by simp
  with hm h0 have heq: "h = h0" unfolding mask39 by (simp only: and_mask_id)
  have "0 \<le> s AND 0x1FFFFFFFFFFFFFFFFF" by simp
  with sm have s0: "0 \<le> s" by simp
  from slt have s69: "s < 2 ^ 69 - 1" by simp
  have "push_bit 35 s < 2 ^ 104" using s69 by (simp add: push_bit_eq_mult)
  moreover have "h < 2 ^ 104" using h0 heq by simp
  moreover have "0 \<le> push_bit 35 s" using s0 by simp
  ultimately have sig: "push_bit 35 s OR h < 2 ^ 104" by (intro OR_upper) simp_all
  have sig0: "0 \<le> push_bit 35 s OR h" using s0 h0 heq by simp
  from sig have "push_bit 35 s OR h < 256 ^ 14" by simp
  with sig0 have pk: "pack_signature s h = Inr (le_bytes 14 (push_bit 35 s OR h))"
    by (simp add: pack_signature_def bigint_to_bytes_le_def Let_def)
  have "(push_bit 35 s OR h) div 256 ^ 13 = 0"
    using sig sig0 by (simp add: div_pos_pos_trivial)
  then have top: "le_bytes 14 (push_bit 35 s OR h) ! 13 = 0"
    by (simp add: le_bytes_nth)
  from s0 s69 sm h0 heq hh sig pk top show ?thesis
    by (auto simp: le_bytes_length)
qed

theorem accepted_signature_bounds_witness:
  "(1::int) < 2 ^ 69 - 1 \<and> (0::int) < 2 ^ 35 \<and>
   (\<exists>sigdata_bytes. pack_signature 1 0 = Inr sigdata_bytes \<and>
      length sigdata_bytes = 14 \<and> sigdata_bytes ! 13 = 0)"
  using accepted_signature_bounds [OF sign_attempt_example] by simp

subsection \<open>Verification never raises\<close>

lemma mod_inverse_zero:
  "m \<noteq> 0 \<Longrightarrow> m \<noteq> 1 \<Longrightarrow> mod_inverse 0 m = Inl (ValueError ''Modular inverse does not exist'')"
  by (simp add: mod_inverse_def extended_gcd.simps [of 0 m])

lemma validate_tskey_cases:
  "validate_tskey md5 sha1 pid tskey curve is_spk = Inr False \<or>
   validate_tskey md5 sha1 pid tskey curve is_spk = Inr True"
  by (cases "validate_body md5 sha1 pid tskey curve is_spk") (auto simp: validate_tskey_def)

lemma validate_tskey_caught:
  "validate_body md5 sha1 pid tskey curve is_spk = Inl e \<Longrightarrow>
   validate_tskey md5 sha1 pid tskey curve is_spk = Inr False"
  by (simp add: validate_tskey_def)

lemma decrypt_kdata_decode_error:
  "decode_pkey tskey = Inl e \<Longrightarrow> decrypt_kdata md5 pid tskey = Inl e"
  by (simp add: decrypt_kdata_def bindE_def)

lemma decrypt_kdata_oversized:
  "decode_pkey tskey = Inr n \<Longrightarrow> 256 ^ 21 \<le> n \<Longrightarrow>
   decrypt_kdata md5 pid tskey = Inl (OverflowError ''int too big to convert'')"
  by (simp add: decrypt_kdata_def bindE_def bigint_to_bytes_le_def)

lemma validate_body_decrypt_error:
  "decrypt_kdata md5 pid tskey = Inl e \<Longrightarrow> validate_body md5 sha1 pid tskey curve is_spk = Inl e"
  by (simp add: validate_body_def bindE_def)

lemma validate_body_signature_error:
  "decrypt_kdata md5 pid tskey = Inr dc_kdata \<Longrightarrow> check_signature sha1 curve dc_kdata = Inl e \<Longrightarrow>
   validate_body md5 sha1 pid tskey curve is_spk = Inl e"
  by (simp add: validate_body_def bindE_def)

text \<open>
  Claim C5. For every PID, key, curve and kind, \<^verbatim>\<open>validate_tskey\<close> returns a verdict and
  raises nothing; every exception of the body becomes the verdict \<open>False\<close>: a failure of
  \<^verbatim>\<open>decode_pkey\<close> (bad key length, bad character), a decoded integer that does not fit
  21 bytes, a failure of the curve arithmetic in the signature check (such as a modular
  inverse that does not exist), and a PID whose SPK ID cannot be read.
\<close>

theorem validate_tskey_never_raises:
  "(\<exists>verdict. validate_tskey md5 sha1 pid tskey curve is_spk = Inr verdict) \<and>
   (validate_body md5 sha1 pid tskey curve is_spk = Inl e \<longrightarrow>
      validate_tskey md5 sha1 pid tskey curve is_spk = Inr False) \<and>
   (decode_pkey tskey = Inl e \<longrightarrow>
      validate_tskey md5 sha1 pid tskey curve is_spk = Inr False) \<and>
   (decode_pkey tskey = Inr n \<and> 256 ^ 21 \<le> n \<longrightarrow>
      validate_tskey md5 sha1 pid tskey curve is_spk = Inr False) \<and>
   (decrypt_kdata md5 pid tskey = Inr dc_kdata \<and> check_signature sha1 curve dc_kdata = Inl e \<longrightarrow>
      validate_tskey md5 sha1 pid tskey curve is_spk = Inr False) \<and>
   (decrypt_kdata md5 pid tskey = Inr dc_kdata \<and> check_signature sha1 curve dc_kdata = Inr True \<and>
    get_spkid pid = Inl e \<longrightarrow>
      validate_tskey md5 sha1 pid tskey curve True = Inr False)"
proof (intro conjI impI)
  show "\<exists>verdict. validate_tskey md5 sha1 pid tskey curve is_spk = Inr verdict"
    using validate_tskey_cases [of md5 sha1 pid tskey curve is_spk] by blast
next
  assume "validate_body md5 sha1 pid tskey curve is_spk = Inl e"
  then show "validate_tskey md5 sha1 pid tskey curve is_spk = Inr False"
    by (rule validate_tskey_caught)
next
  assume "decode_pkey tskey = Inl e"
  then have "validate_body md5 sha1 pid tskey curve is_spk = Inl e"
    by (intro validate_body_decrypt_error decrypt_kdata_decode_error)
  then show "validate_tskey md5 sha1 pid tskey curve is_spk = Inr False"
    by (rule validate_tskey_caught)
next
  assume "decode_pkey tskey = Inr n \<and> 256 ^ 21 \<le> n"
  then have "decrypt_kdata md5 pid tskey = Inl (OverflowError ''int too big to convert'')"
    by (simp add: decrypt_kdata_oversized)
  then have "validate_body md5 sha1 pid tskey curve is_spk = Inl (OverflowError ''int too big to convert'')"
    by (rule validate_body_decrypt_error)
  then show "validate_tskey md5 sha1 pid tskey curve is_spk = Inr False"
    by (rule validate_tskey_caught)
next
  assume "decrypt_kdata md5 pid tskey = Inr dc_kdata \<and> check_signature sha1 curve dc_kdata = Inl e"
  then have "validate_body md5 sha1 pid tskey curve is_spk = Inl e"
    by (simp add: validate_body_signature_error)
  then show "validate_tskey md5 sha1 pid tskey curve is_spk = Inr False"
    by (rule validate_tskey_caught)
next
  assume "decrypt_kdata md5 pid tskey = Inr dc_kdata \<and> check_signature sha1 curve dc_kdata = Inr True \<and>
    get_spkid pid = Inl e"
  then have "validate_body md5 sha1 pid tskey curve True = Inl e"
    by (simp add: validate_body_def bindE_def)
  then show "validate_tskey md5 sha1 pid tskey curve True = Inr False"
    by (rule validate_tskey_caught)
qed

lemma decode_pkey_oversized_example:
  "decode_pkey ''99999-99999-99999-99999-99999-99999-99999-99999'' = Inr (24 ^ 40 - 1)"
  by code_simp

theorem validate_tskey_never_raises_witness:
  "validate_tskey (\<lambda>msg. replicate 16 0) (\<lambda>msg. replicate 20 0)
     ''00490-92005-99454-AT527'' ''BBBB'' SPKCurve True = Inr False \<and>
   validate_tskey (\<lambda>msg. replicate 16 0) (\<lambda>msg. replicate 20 0)
     ''00490-92005-99454-AT527'' ''BBBBA'' SPKCurve True = Inr False \<and>
   validate_tskey (\<lambda>msg. replicate 16 0) (\<lambda>msg. replicate 20 0)
     ''00490-92005-99454-AT527'' ''99999-99999-99999-99999-99999-99999-99999-99999'' SPKCurve True
       = Inr False"
proof -
  have a: "decode_pkey ''BBBB'' = Inl (ValueError ''Bad key length'')" by code_simp
  have b: "decode_pkey ''BBBBA'' = Inl (ValueError ''substring not found'')" by code_simp
  have c: "(256::int) ^ 21 \<le> 24 ^ 40 - 1" by simp
  from validate_tskey_never_raises [of "\<lambda>msg. replicate 16 0" "\<lambda>msg. replicate 20 0"
      "''00490-92005-99454-AT527''" "''BBBB''" SPKCurve True "ValueError ''Bad key length''"] a
  have 1: "validate_tskey (\<lambda>msg. replicate 16 0) (\<lambda>msg. replicate 20 0)
     ''00490-92005-99454-AT527'' ''BBBB'' SPKCurve True = Inr False" by blast
  from validate_tskey_never_raises [of "\<lambda>msg. replicate 16 0" "\<lambda>msg. replicate 20 0"
      "''00490-92005-99454-AT527''" "''BBBBA''" SPKCurve True "ValueError ''substring not found''"] b
  have 2: "validate_tskey (\<lambda>msg. replicate 16 0) (\<lambda>msg. replicate 20 0)
     ''00490-92005-99454-AT527'' ''BBBBA'' SPKCurve True = Inr False" by blast
  from validate_tskey_never_raises [of "\<lambda>msg. replicate 16 0" "\<lambda>msg. replicate 20 0"
      "''00490-92005-99454-AT527''" "''99999-99999-99999-99999-99999-99999-99999-99999''" SPKCurve True
      _ "24 ^ 40 - 1"] decode_pkey_oversized_example c
  have 3: "validate_tskey (\<lambda>msg. replicate 16 0) (\<lambda>msg. replicate 20 0)
     ''00490-92005-99454-AT527'' ''99999-99999-99999-99999-99999-99999-99999-99999'' SPKCurve True
       = Inr False" by blast
  from 1 2 3 show ?thesis by blast
qed

subsection \<open>The payload check of an SPK\<close>

lemma mask41: "(x :: int) AND 0x1FFFFFFFFFF = take_bit 41 x"
  by (simp add: take_bit_eq_mask mask_eq_exp_minus_1)

text \<open>
  Claim C6. With \<^verbatim>\<open>is_spk\<close> true the key is accepted exactly when it decrypts, the
  signature check passes, and the SPK ID of the PID equals the low 41 bits of the first
  7 decrypted bytes; with \<^verbatim>\<open>is_spk\<close> false it is accepted exactly when it decrypts and
  the signature check passes.
\<close>

theorem validate_tskey_payload_check:
  "(validate_tskey md5 sha1 pid tskey curve True = Inr True \<longleftrightarrow>
      (\<exists>dc_kdata. decrypt_kdata md5 pid tskey = Inr dc_kdata \<and>
         check_signature sha1 curve dc_kdata = Inr True \<and>
         get_spkid pid = Inr (take_bit 41 (bytes_to_bigint_le (take 7 dc_kdata))))) \<and>
   (validate_tskey md5 sha1 pid tskey curve False = Inr True \<longleftrightarrow>
      (\<exists>dc_kdata. decrypt_kdata md5 pid tskey = Inr dc_kdata \<and>
         check_signature sha1 curve dc_kdata = Inr True))"
proof -
  show ?thesis
  proof (cases "decrypt_kdata md5 pid tskey")
    case (Inl e)
    then show ?thesis by (simp add: validate_tskey_def validate_body_def bindE_def)
  next
    case dc: (Inr dc_kdata)
    show ?thesis
    proof (cases "check_signature sha1 curve dc_kdata")
      case (Inl e)
      with dc show ?thesis by (simp add: validate_tskey_def validate_body_def bindE_def)
    next
      case sg: (Inr signed)
      show ?thesis
      proof (cases "get_spkid pid")
        case (Inl e)
        with dc sg show ?thesis
          by (simp add: validate_tskey_def validate_body_def bindE_def Let_def)
      next
        case (Inr spkid)
        with dc sg show ?thesis
          by (auto simp: validate_tskey_def validate_body_def bindE_def Let_def mask41)
      qed
    qed
  qed
qed

lemma decrypt_kdata_empty_key:
  "decrypt_kdata md5 pid '''' = Inr (prga 0 0 (ksa (rc4_key md5 pid)) (le_bytes 21 0))"
proof -
  have "rc4_key md5 pid \<noteq> []" by (simp add: rc4_key_def Let_def)
  then have "rc4 (rc4_key md5 pid) (le_bytes 21 0) = Inr (prga 0 0 (ksa (rc4_key md5 pid)) (le_bytes 21 0))"
    by (simp only: rc4_def if_False)
  moreover have "decode_pkey '''' = Inr 0" by (simp add: decode_pkey_def)
  moreover have "bigint_to_bytes_le 0 21 = Inr (le_bytes 21 0)" by (simp add: bigint_to_bytes_le_def)
  ultimately show ?thesis by (simp only: decrypt_kdata_def bindE_def Let_def sum.case)
qed

theorem validate_tskey_payload_check_witness:
  "(validate_tskey (\<lambda>msg. replicate 16 0) (\<lambda>msg. replicate 20 0)
      ''00490-92005-99454-AT527'' '''' SPKCurve True = Inr True \<longleftrightarrow>
      check_signature (\<lambda>msg. replicate 20 0) SPKCurve
        (prga 0 0 (ksa (rc4_key (\<lambda>msg. replicate 16 0) ''00490-92005-99454-AT527'')) (le_bytes 21 0))
        = Inr True \<and>
      take_bit 41 (bytes_to_bigint_le (take 7
        (prga 0 0 (ksa (rc4_key (\<lambda>msg. replicate 16 0) ''00490-92005-99454-AT527'')) (le_bytes 21 0))))
        = 5) \<and>
   (validate_tskey (\<lambda>msg. replicate 16 0) (\<lambda>msg. replicate 20 0)
      ''00490-92005-99454-AT527'' '''' SPKCurve False = Inr True \<longleftrightarrow>
      check_signature (\<lambda>msg. replicate 20 0) SPKCurve
        (prga 0 0 (ksa (rc4_key (\<lambda>msg. replicate 16 0) ''00490-92005-99454-AT527'')) (le_bytes 21 0))
        = Inr True)"
  using validate_tskey_payload_check [of "\<lambda>msg. replicate 16 0" "\<lambda>msg. replicate 20 0"
      "''00490-92005-99454-AT527''" "''''" SPKCurve]
  by (simp only: decrypt_kdata_empty_key get_spkid_example sum.inject simp_thms ex_simps) auto

end
